theory Spec2Isabelle
  imports Complex_Main "HOL-Library.Multiset"
begin

section \<open>Characters and the regular expressions of \<open>ass_core.py\<close>\<close>

text \<open>
  Python strings are sequences of code points; the model uses \<^typ>\<open>string\<close>, whose
  characters are the code points below 256. The character classes are the ones Python's
  \<open>re\<close> module and \<open>str.isspace\<close> use on that range: \<open>\s\<close> and \<open>isspace\<close> accept
  9..13, 28..32, 133 and 160; \<open>\d\<close> accepts the digits 0..9; \<open>.\<close> accepts everything
  but the line feed.

  Each regular expression of the source is written out as the function that the
  backtracking matcher computes for it; the pattern is quoted above its function.
\<close>

definition LF :: char where
  "LF = CHR 0x0A"

definition is_space :: "char \<Rightarrow> bool" where
  "is_space c =
     (let n = (of_char c :: nat)
      in (9 \<le> n \<and> n \<le> 13) \<or> (28 \<le> n \<and> n \<le> 32) \<or> n = 133 \<or> n = 160)"

definition is_digit :: "char \<Rightarrow> bool" where
  "is_digit c = (let n = (of_char c :: nat) in 48 \<le> n \<and> n \<le> 57)"

text \<open>\<open>int(kdur)\<close> on a string of decimal digits.\<close>

definition int_of_digits :: "string \<Rightarrow> int" where
  "int_of_digits ds = foldl (\<lambda>a c. 10 * a + (int (of_char c) - 48)) 0 ds"

text \<open>\<open>str.isspace()\<close>: non-empty and every character is whitespace.\<close>

definition isspace :: "string \<Rightarrow> bool" where
  "isspace s = (s \<noteq> [] \<and> list_all is_space s)"

subsection \<open>\<open>\{.*?\}\<close>: one bracketed tag group\<close>

text \<open>
  After an opening brace, the lazy \<open>.*?\<close> runs to the first closing brace, and fails
  when a line feed or the end of the string comes first. \<open>brace_body\<close> returns the
  text between the braces and the text after the closing brace.
\<close>

fun brace_body :: "string \<Rightarrow> (string \<times> string) option" where
  "brace_body [] = None"
| "brace_body (c # cs) =
     (if c = CHR ''}'' then Some ([], cs)
      else if c = LF then None
      else (case brace_body cs of
              None \<Rightarrow> None
            | Some (body, rest) \<Rightarrow> Some (c # body, rest)))"

lemma brace_body_split:
  "brace_body s = Some (body, rest) \<Longrightarrow> s = body @ CHR ''}'' # rest"
  by (induction s arbitrary: body) (auto split: if_splits option.splits)

lemma brace_body_shorter:
  "brace_body s = Some (body, rest) \<Longrightarrow> length rest < length s"
  by (drule brace_body_split) simp

text \<open>
  \<open>line.text = re.sub(r"\{.*?\}", "", line.raw_text)\<close>: every leftmost group is
  removed; an opening brace that is never closed stays.
\<close>

function strip_tags :: "string \<Rightarrow> string" where
  "strip_tags [] = []"
| "strip_tags (c # cs) =
     (if c = CHR ''{'' then
        (case brace_body cs of
           Some (body, rest) \<Rightarrow> strip_tags rest
         | None \<Rightarrow> c # strip_tags cs)
      else c # strip_tags cs)"
  by pat_completeness auto
termination
  by (relation "measure length") (auto dest: brace_body_shorter)

subsection \<open>\<open>(\s*)([^\s]+)(\s*)\<close>: the words of a line\<close>

text \<open>
  \<open>re.findall\<close> scans from the left. At each position the three groups are the longest
  run of whitespace, the longest non-empty run of other characters and the longest run
  of whitespace again; when only whitespace is left, no position matches any more.
\<close>

function find_words :: "string \<Rightarrow> (string \<times> string \<times> string) list" where
  "find_words s =
     (let prespace = takeWhile is_space s;
          s1 = dropWhile is_space s;
          word_text = takeWhile (\<lambda>c. \<not> is_space c) s1;
          s2 = dropWhile (\<lambda>c. \<not> is_space c) s1;
          postspace = takeWhile is_space s2;
          s3 = dropWhile is_space s2
      in if word_text = [] then []
         else (prespace, word_text, postspace) # find_words s3)"
  by pat_completeness auto
termination
proof (relation "measure length", simp, goal_cases)
  case (1 s prespace s1 word_text s2 postspace s3)
  have "length s3 \<le> length s2"
    unfolding 1 by (rule length_dropWhile_le)
  moreover have "length s2 < length s1"
  proof -
    have "length word_text + length s2 = length (word_text @ s2)"
      by simp
    also have "word_text @ s2 = s1"
      unfolding 1 by (rule takeWhile_dropWhile_id)
    finally have "length word_text + length s2 = length s1" .
    moreover have "0 < length word_text"
      using 1(7) by simp
    ultimately show ?thesis by linarith
  qed
  moreover have "length s1 \<le> length s"
    unfolding 1 by (rule length_dropWhile_le)
  ultimately show ?case by simp
qed

declare find_words.simps [simp del]

subsection \<open>\<open>(\{.*?\})+\<close>: a run of tag groups\<close>

text \<open>
  \<open>tag_run\<close> matches the pattern at the start of a string and returns the matched text
  and the text after it: one group, then greedily as many further groups as follow
  immediately.
\<close>

function tag_run :: "string \<Rightarrow> (string \<times> string) option" where
  "tag_run [] = None"
| "tag_run (c # cs) =
     (if c \<noteq> CHR ''{'' then None
      else (case brace_body cs of
              None \<Rightarrow> None
            | Some (body, rest) \<Rightarrow>
                (case tag_run rest of
                   None \<Rightarrow> Some (c # body @ ''}'', rest)
                 | Some (more, rest') \<Rightarrow> Some (c # body @ ''}'' @ more, rest'))))"
  by pat_completeness auto
termination
  by (relation "measure length") (auto dest: brace_body_shorter)

text \<open>
  \<open>tag_pattern.search(s)\<close>: the leftmost match. The result is the text before the match
  (\<open>s[:tag.start()]\<close>), the match (\<open>s[tag.start():tag.end()]\<close>) and the text after it
  (\<open>s[tag.end():]\<close>). The pattern has no anchor, so \<open>search(s, pos)\<close> is the search in
  \<open>s[pos:]\<close>.
\<close>

fun tag_search :: "string \<Rightarrow> (string \<times> string \<times> string) option" where
  "tag_search [] = None"
| "tag_search (c # cs) =
     (case tag_run (c # cs) of
        Some (tag, rest) \<Rightarrow> Some ([], tag, rest)
      | None \<Rightarrow>
          (case tag_search cs of
             None \<Rightarrow> None
           | Some (pre, tag, rest) \<Rightarrow> Some (c # pre, tag, rest)))"

text \<open>\<open>.replace("}{", "")\<close>: every occurrence, left to right.\<close>

fun remove_close_open :: "string \<Rightarrow> string" where
  "remove_close_open (a # b # cs) =
     (if a = CHR ''}'' \<and> b = CHR ''{'' then remove_close_open cs
      else a # remove_close_open (b # cs))"
| "remove_close_open cs = cs"

subsection \<open>\<open>(.*?)(\s+)$\<close>: does a chunk's text end in whitespace?\<close>

definition rstrip_space :: "string \<Rightarrow> string" where
  "rstrip_space s = rev (dropWhile is_space (rev s))"

definition trailing_space :: "string \<Rightarrow> string" where
  "trailing_space s = rev (takeWhile is_space (rev s))"

text \<open>
  \<open>re.match(r"(.*?)(\s+)$", text)\<close> succeeds when the text ends in a non-empty run of
  whitespace and the lazy \<open>.*?\<close> can reach that run, that is, no line feed stands
  before it.
\<close>

definition ends_in_space :: "string \<Rightarrow> bool" where
  "ends_in_space s = (trailing_space s \<noteq> [] \<and> LF \<notin> set (rstrip_space s))"

subsection \<open>\<open>(\s*)(.*?)(\s*)$\<close>: prespace, text and postspace of a syllable\<close>

text \<open>
  The first group takes the leading whitespace, the lazy middle group stops where only
  whitespace is left, the last group takes that whitespace. The middle group cannot
  cross a line feed: then \<open>re.match\<close> returns \<open>None\<close> (and the source's \<open>.groups()\<close>
  raises).
\<close>

definition split_space :: "string \<Rightarrow> (string \<times> string \<times> string) option" where
  "split_space s =
     (let prespace = takeWhile is_space s;
          core = rstrip_space (dropWhile is_space s);
          postspace = trailing_space (dropWhile is_space s)
      in if LF \<in> set core then None else Some (prespace, core, postspace))"

subsection \<open>\<open>(.*?)\\[kK][of]?(\d+)(.*)\<close>: the next karaoke tag\<close>

definition backslash :: char where
  "backslash = CHR 0x5C"

text \<open>
  \<open>ktag_at\<close> matches \<open>\\[kK][of]?(\d+)\<close> at the start of a string and returns the digits
  and the text after them. An \<open>o\<close> or \<open>f\<close> after the \<open>k\<close> belongs to the tag; the digits
  are the longest run.
\<close>

fun ktag_at :: "string \<Rightarrow> (string \<times> string) option" where
  "ktag_at (b # k # cs) =
     (if b = backslash \<and> (k = CHR ''k'' \<or> k = CHR ''K'') then
        (let cs1 = (case cs of
                      [] \<Rightarrow> cs
                    | c # cs' \<Rightarrow> if c = CHR ''o'' \<or> c = CHR ''f'' then cs' else cs)
         in if takeWhile is_digit cs1 = [] then None
            else Some (takeWhile is_digit cs1, dropWhile is_digit cs1))
      else None)"
| "ktag_at cs = None"

text \<open>
  \<open>syl_tags_pattern.match(s)\<close>: the lazy first group stops at the leftmost karaoke
  tag and cannot cross a line feed; the last group runs to the next line feed or the
  end. The result is \<open>(pretags, kdur, posttags)\<close>.
\<close>

fun syl_tags_match :: "string \<Rightarrow> (string \<times> string \<times> string) option" where
  "syl_tags_match [] = None"
| "syl_tags_match (c # cs) =
     (case ktag_at (c # cs) of
        Some (kdur, rest) \<Rightarrow> Some ([], kdur, takeWhile (\<lambda>x. x \<noteq> LF) rest)
      | None \<Rightarrow>
          if c = LF then None
          else (case syl_tags_match cs of
                  None \<Rightarrow> None
                | Some (pretags, kdur, posttags) \<Rightarrow> Some (c # pretags, kdur, posttags)))"

subsection \<open>\<open>\\\-([^\\]+)\<close>: the inline effect of a syllable\<close>

text \<open>
  \<open>re.search\<close>: the leftmost backslash and minus followed by at least one character that
  is not a backslash; the name is the longest run of such characters.
\<close>

fun inline_fx_search :: "string \<Rightarrow> string option" where
  "inline_fx_search (a # b # cs) =
     (if a = backslash \<and> b = CHR ''-'' \<and> takeWhile (\<lambda>x. x \<noteq> backslash) cs \<noteq> []
      then Some (takeWhile (\<lambda>x. x \<noteq> backslash) cs)
      else inline_fx_search (b # cs))"
| "inline_fx_search cs = None"

section \<open>The data model\<close>

text \<open>
  The classes \<open>Meta\<close>, \<open>Style\<close>, \<open>Word\<close>, \<open>Syllable\<close>, \<open>Char\<close> and \<open>Line\<close>, with the fields
  that the segmentation, the layout, the lead times and \<open>write_line\<close> read or write.
  Times are Python integers (milliseconds); widths, heights and coordinates are Python
  floats, taken here as real numbers. A field that the code assigns only on some paths
  is an option, \<open>None\<close> while it is unset. The eight coordinates of an element are always
  assigned together and form one record.

  Not modelled: the colour, font and decoration fields of \<open>Style\<close>, the \<open>styleref\<close>
  back-reference of words, syllables and chars (always the line's), and the four font
  metrics (\<open>ascent\<close>, \<open>descent\<close>, \<open>internal_leading\<close>, \<open>external_leading\<close>), which are
  copied from the font to every element and never read by this code.
\<close>

record Meta =
  play_res_x :: int
  play_res_y :: int

record Style =
  spacing :: real
  alignment :: int
  st_margin_l :: int
  st_margin_r :: int
  st_margin_v :: int

text \<open>
  The font metrics provider \<open>Font(line.styleref)\<close> (\<open>font_utility.py\<close>, outside this
  file) enters as a parameter: \<open>get_text_extents\<close> gives the width and height of a text.
\<close>

record Font =
  get_text_extents :: "string \<Rightarrow> real \<times> real"

record Position =
  p_x :: real
  p_y :: real
  p_left :: real
  p_center :: real
  p_right :: real
  p_top :: real
  p_middle :: real
  p_bottom :: real

record Word =
  w_i :: nat
  w_start_time :: int
  w_end_time :: int
  w_duration :: int
  w_text :: string
  w_prespace :: nat
  w_postspace :: nat
  w_width :: "real option"
  w_height :: "real option"
  w_pos :: "Position option"

record Syllable =
  s_i :: nat
  s_word_i :: nat
  s_start_time :: int
  s_end_time :: int
  s_duration :: int
  s_tags :: string
  s_inline_fx :: string
  s_text :: string
  s_prespace :: nat
  s_postspace :: nat
  s_width :: "real option"
  s_height :: "real option"
  s_pos :: "Position option"

record Char =
  c_i :: nat
  c_word_i :: nat
  c_syl_i :: "nat option"
  c_syl_char_i :: "nat option"
  c_start_time :: int
  c_end_time :: int
  c_duration :: int
  c_text :: string
  c_width :: "real option"
  c_height :: "real option"
  c_pos :: "Position option"

record Line =
  l_i :: nat
  l_comment :: bool
  l_layer :: int
  l_start_time :: int
  l_end_time :: int
  l_duration :: int
  l_leadin :: real
  l_leadout :: real
  l_style :: string
  l_styleref :: "Style option"
  l_actor :: string
  l_margin_l :: int
  l_margin_r :: int
  l_margin_v :: int
  l_effect :: string
  l_raw_text :: string
  l_text :: string
  l_width :: real
  l_height :: real
  l_pos :: "Position option"
  l_words :: "Word list"
  l_syls :: "Syllable list"
  l_chars :: "Char list"

datatype error = AttributeError | IndexError | KeyError | TypeError

section \<open>The tag-chunk splitter\<close>

text \<open>
  A text chunk is the dictionary \<open>{"tags": ..., "text": ..., "word_i": ...}\<close>. The chunk
  that the source emits for the text before the first tag run, or for a line without
  tags, has no \<open>"word_i"\<close> key: \<open>tc_word_i\<close> is \<open>None\<close> there.
\<close>

record chunk =
  tc_tags :: string
  tc_text :: string
  tc_word_i :: "nat option"

lemma tag_run_shorter:
  "tag_run s = Some (tag, rest) \<Longrightarrow> length rest < length s"
proof (induction s arbitrary: tag rest rule: tag_run.induct)
  case 1
  then show ?case by simp
next
  case (2 c cs)
  from "2.prems" obtain body r where b: "c = CHR ''{''" "brace_body cs = Some (body, r)"
    by (auto split: if_splits option.splits)
  have r: "length r < length cs"
    using b(2) by (rule brace_body_shorter)
  show ?case
  proof (cases "tag_run r")
    case None
    with "2.prems" b r show ?thesis by auto
  next
    case (Some p)
    obtain more r' where p: "p = (more, r')" by (cases p)
    from "2.IH" [OF _ b(2) refl, of more r'] b(1) Some p
    have "length r' < length r" by simp
    with "2.prems" b r Some p show ?thesis by auto
  qed
qed

lemma tag_search_shorter:
  "tag_search s = Some (pre, tag, rest) \<Longrightarrow> length rest < length s"
proof (induction s arbitrary: pre)
  case Nil
  then show ?case by simp
next
  case (Cons c cs)
  show ?case
  proof (cases "tag_run (c # cs)")
    case None
    with Cons.prems obtain pre' where "tag_search cs = Some (pre', tag, rest)"
      by (auto split: option.splits)
    from Cons.IH [OF this] show ?thesis by simp
  next
    case (Some p)
    with Cons.prems have "tag_run (c # cs) = Some (tag, rest)"
      by (auto split: prod.splits)
    then show ?thesis by (rule tag_run_shorter)
  qed
qed

text \<open>
  The \<open>while True\<close> loop of the splitter. \<open>tag\<close> is the text of the current match,
  \<open>rest\<close> is \<open>line.raw_text[tag.end():]\<close>, \<open>word_i\<close> the running word index. The
  loop searches the next tag run in \<open>rest\<close>, emits the chunk of the current one and
  goes on with the next.
\<close>

function chunk_loop :: "string \<Rightarrow> string \<Rightarrow> nat \<Rightarrow> chunk list" where
  "chunk_loop tag rest word_i =
     (let next_tag = tag_search rest;
          tmp = \<lparr>tc_tags = remove_close_open (butlast (tl tag)),
                 tc_text = (case next_tag of None \<Rightarrow> rest | Some (pre, _, _) \<Rightarrow> pre),
                 tc_word_i = Some word_i\<rparr>;
          word_i' = (if ends_in_space (tc_text tmp) then word_i + 1 else word_i)
      in case next_tag of
           None \<Rightarrow> [tmp]
         | Some (_, tag', rest') \<Rightarrow> tmp # chunk_loop tag' rest' word_i')"
  by pat_completeness auto
termination
  by (relation "measure (\<lambda>(tag, rest, word_i). length rest)")
     (auto dest: tag_search_shorter [OF sym])

declare chunk_loop.simps [simp del]

definition text_chunks :: "string \<Rightarrow> chunk list" where
  "text_chunks raw_text =
     (case tag_search raw_text of
        None \<Rightarrow> [\<lparr>tc_tags = [], tc_text = raw_text, tc_word_i = None\<rparr>]
      | Some (pre, tag, rest) \<Rightarrow>
          (if pre \<noteq> [] then [\<lparr>tc_tags = [], tc_text = pre, tc_word_i = None\<rparr>] else [])
          @ chunk_loop tag rest 0)"

section \<open>The syllable extractor\<close>

text \<open>
  A provisional syllable is a \<open>Syllable()\<close> object as the inner loop leaves it: index,
  word index, times and the tags before its karaoke tag. Text, spaces, inline effect and
  size are assigned when the chunk is finished.
\<close>

record provisional_syl =
  ps_i :: nat
  ps_word_i :: nat
  ps_start_time :: int
  ps_end_time :: int
  ps_duration :: int
  ps_tags :: string

lemma ktag_at_shorter:
  "ktag_at s = Some (kdur, rest) \<Longrightarrow> length rest < length s"
proof (induction s rule: ktag_at.induct)
  case (1 b k cs)
  define cs1 where "cs1 = (case cs of [] \<Rightarrow> cs
     | c # cs' \<Rightarrow> if c = CHR ''o'' \<or> c = CHR ''f'' then cs' else cs)"
  have "length cs1 \<le> length cs"
    by (auto simp: cs1_def split: list.splits)
  moreover from 1 have "rest = dropWhile is_digit cs1"
    by (auto simp: cs1_def Let_def split: if_splits)
  moreover have "length (dropWhile is_digit cs1) \<le> length cs1"
    by (rule length_dropWhile_le)
  ultimately show ?case by simp
qed simp_all

lemma syl_tags_match_shorter:
  "syl_tags_match s = Some (pretags, kdur, posttags) \<Longrightarrow> length posttags < length s"
proof (induction s arbitrary: pretags)
  case Nil
  then show ?case by simp
next
  case (Cons c cs)
  show ?case
  proof (cases "ktag_at (c # cs)")
    case None
    with Cons.prems obtain pre' where "syl_tags_match cs = Some (pre', kdur, posttags)"
      by (auto split: if_splits option.splits)
    from Cons.IH [OF this] show ?thesis by simp
  next
    case (Some p)
    obtain kd rest where p: "p = (kd, rest)" by (cases p)
    from Some p have "length rest < length (c # cs)"
      by (auto dest: ktag_at_shorter)
    moreover from Cons.prems Some p have "posttags = takeWhile (\<lambda>x. x \<noteq> LF) rest"
      by simp
    moreover have "length (takeWhile (\<lambda>x. x \<noteq> LF) rest) \<le> length rest"
      by (rule length_takeWhile_le)
    ultimately show ?thesis by simp
  qed
qed

text \<open>
  The inner \<open>while True\<close> loop up to the point where no karaoke tag is left: every match
  appends one provisional syllable and advances the syllable index \<open>si\<close> and the clock
  \<open>last_time\<close>. The result is the provisional syllables, the tags left over, and the
  new index and clock. Reading \<open>tc["word_i"]\<close> on a chunk without that key raises.
\<close>

function peel_syls ::
  "chunk \<Rightarrow> string \<Rightarrow> nat \<Rightarrow> int \<Rightarrow> provisional_syl list
     \<Rightarrow> error + (provisional_syl list \<times> string \<times> nat \<times> int)" where
  "peel_syls tc posttags si last_time syls_in_text_chunk =
     (case syl_tags_match posttags of
        None \<Rightarrow> Inr (syls_in_text_chunk, posttags, si, last_time)
      | Some (pretags, kdur, posttags') \<Rightarrow>
          (case tc_word_i tc of
             None \<Rightarrow> Inl KeyError
           | Some word_i \<Rightarrow>
               peel_syls tc posttags' (si + 1) (last_time + int_of_digits kdur * 10)
                 (syls_in_text_chunk @
                  [\<lparr>ps_i = si, ps_word_i = word_i,
                    ps_start_time = last_time,
                    ps_end_time = last_time + int_of_digits kdur * 10,
                    ps_duration = int_of_digits kdur * 10,
                    ps_tags = pretags\<rparr>])))"
  by pat_completeness auto
termination
  by (relation "measure (\<lambda>(tc, posttags, si, last_time, acc). length posttags)")
     (auto dest: syl_tags_match_shorter)

declare peel_syls.simps [simp del]

text \<open>A provisional syllable made final with its tags, inline effect, spaces and text.\<close>

definition finish_syl ::
  "Font \<Rightarrow> provisional_syl \<Rightarrow> string \<Rightarrow> string \<Rightarrow> nat \<Rightarrow> string \<Rightarrow> nat \<Rightarrow> Syllable" where
  "finish_syl font syl tags inline_fx prespace text postspace =
     \<lparr>s_i = ps_i syl, s_word_i = ps_word_i syl,
      s_start_time = ps_start_time syl, s_end_time = ps_end_time syl,
      s_duration = ps_duration syl,
      s_tags = tags, s_inline_fx = inline_fx,
      s_text = text, s_prespace = prespace, s_postspace = postspace,
      s_width = Some (fst (get_text_extents font text)),
      s_height = Some (snd (get_text_extents font text)),
      s_pos = None\<rparr>"

text \<open>
  \<open>for syl in syls_in_text_chunk[:-1]\<close>: the hidden syllables, with the carried inline
  effect threaded through.
\<close>

fun hidden_syls :: "Font \<Rightarrow> provisional_syl list \<Rightarrow> string \<Rightarrow> Syllable list \<times> string" where
  "hidden_syls font [] inline_fx = ([], inline_fx)"
| "hidden_syls font (syl # syls) inline_fx =
     (let inline_fx' = (case inline_fx_search (ps_tags syl) of
                          Some name \<Rightarrow> name
                        | None \<Rightarrow> inline_fx);
          (rest, inline_fx'') = hidden_syls font syls inline_fx'
      in (finish_syl font syl (ps_tags syl) inline_fx' 0 [] 0 # rest, inline_fx''))"

text \<open>The last syllable of a chunk: it takes the leftover tags and the chunk's text.\<close>

definition last_syl ::
  "Font \<Rightarrow> chunk \<Rightarrow> provisional_syl \<Rightarrow> string \<Rightarrow> string \<Rightarrow> error + (Syllable \<times> string)" where
  "last_syl font tc syl posttags inline_fx =
     (let tags = ps_tags syl @ posttags;
          inline_fx' = (case inline_fx_search tags of
                          Some name \<Rightarrow> name
                        | None \<Rightarrow> inline_fx)
      in if isspace (tc_text tc)
         then Inr (finish_syl font syl tags inline_fx' 0 (tc_text tc) 0, inline_fx')
         else (case split_space (tc_text tc) of
                 None \<Rightarrow> Inl AttributeError
               | Some (prespace, text, postspace) \<Rightarrow>
                   Inr (finish_syl font syl tags inline_fx'
                          (length prespace) text (length postspace), inline_fx')))"

text \<open>
  One pass of the outer loop body for a chunk that has a karaoke tag: the syllables it
  appends to \<open>line.syls\<close> and the new \<open>si\<close>, \<open>last_time\<close> and \<open>inline_fx\<close>.
\<close>

definition chunk_syls ::
  "Font \<Rightarrow> chunk \<Rightarrow> nat \<Rightarrow> int \<Rightarrow> string
     \<Rightarrow> error + (Syllable list \<times> nat \<times> int \<times> string)" where
  "chunk_syls font tc si last_time inline_fx =
     (case peel_syls tc (tc_tags tc) si last_time [] of
        Inl e \<Rightarrow> Inl e
      | Inr (syls_in_text_chunk, posttags, si', last_time') \<Rightarrow>
          (case hidden_syls font (butlast syls_in_text_chunk) inline_fx of
             (hidden, inline_fx1) \<Rightarrow>
               if syls_in_text_chunk = [] then Inl IndexError
               else (case last_syl font tc (last syls_in_text_chunk) posttags inline_fx1 of
                       Inl e \<Rightarrow> Inl e
                     | Inr (syl, inline_fx2) \<Rightarrow>
                         Inr (hidden @ [syl], si', last_time', inline_fx2))))"

text \<open>
  \<open>for tc in text_chunks\<close>: a chunk without a karaoke tag clears \<open>line.syls\<close> and leaves
  the loop.
\<close>

fun syls_loop ::
  "Font \<Rightarrow> chunk list \<Rightarrow> nat \<Rightarrow> int \<Rightarrow> string \<Rightarrow> Syllable list \<Rightarrow> error + Syllable list" where
  "syls_loop font [] si last_time inline_fx syls = Inr syls"
| "syls_loop font (tc # tcs) si last_time inline_fx syls =
     (if syl_tags_match (tc_tags tc) = None then Inr []
      else (case chunk_syls font tc si last_time inline_fx of
              Inl e \<Rightarrow> Inl e
            | Inr (new, si', last_time', inline_fx') \<Rightarrow>
                syls_loop font tcs si' last_time' inline_fx' (syls @ new)))"

definition line_syls :: "Font \<Rightarrow> string \<Rightarrow> error + Syllable list" where
  "line_syls font raw_text = syls_loop font (text_chunks raw_text) 0 0 [] []"

section \<open>Words\<close>

text \<open>The loop over \<open>re.findall(r"(\s*)([^\s]+)(\s*)", line.text)\<close>.\<close>

fun make_words :: "Font \<Rightarrow> Line \<Rightarrow> nat \<Rightarrow> (string \<times> string \<times> string) list \<Rightarrow> Word list" where
  "make_words font line wi [] = []"
| "make_words font line wi ((prespace, word_text, postspace) # found) =
     \<lparr>w_i = wi,
      w_start_time = l_start_time line, w_end_time = l_end_time line,
      w_duration = l_duration line,
      w_text = word_text,
      w_prespace = length prespace, w_postspace = length postspace,
      w_width = Some (fst (get_text_extents font word_text)),
      w_height = Some (snd (get_text_extents font word_text)),
      w_pos = None\<rparr>
     # make_words font line (wi + 1) found"

section \<open>Positions\<close>

text \<open>
  The position of the line itself, from its width and height: the block under
  \<open>if self.meta.play_res_x > 0 and self.meta.play_res_y > 0\<close>. Python's \<open>/\<close> is true
  division and \<open>%\<close> is the floor modulus, as \<open>mod\<close> on \<^typ>\<open>int\<close> is.
\<close>

definition line_position :: "Meta \<Rightarrow> Style \<Rightarrow> Line \<Rightarrow> real \<Rightarrow> real \<Rightarrow> Position" where
  "line_position meta style line width height =
     (let tmp_margin_l = (if l_margin_l line \<noteq> 0 then l_margin_l line else st_margin_l style);
          tmp_margin_r = (if l_margin_r line \<noteq> 0 then l_margin_r line else st_margin_r style);
          margin_v = (if l_margin_v line \<noteq> 0 then l_margin_v line else st_margin_v style);
          lleft =
            (if (alignment style - 1) mod 3 = 0 then real_of_int tmp_margin_l
             else if (alignment style - 2) mod 3 = 0 then
               real_of_int (play_res_x meta) / 2 - width / 2
               + real_of_int tmp_margin_l / 2 - real_of_int tmp_margin_r / 2
             else real_of_int (play_res_x meta) - real_of_int tmp_margin_r - width);
          lcenter = lleft + width / 2;
          lright = lleft + width;
          lx =
            (if (alignment style - 1) mod 3 = 0 then lleft
             else if (alignment style - 2) mod 3 = 0 then lcenter
             else lright);
          ltop =
            (if alignment style > 6 then real_of_int margin_v
             else if alignment style > 3 then real_of_int (play_res_y meta) / 2 - height / 2
             else real_of_int (play_res_y meta) - real_of_int margin_v - height);
          lmiddle = ltop + height / 2;
          lbottom = ltop + height;
          ly =
            (if alignment style > 6 then ltop
             else if alignment style > 3 then lmiddle
             else lbottom)
      in \<lparr>p_x = lx, p_y = ly, p_left = lleft, p_center = lcenter, p_right = lright,
          p_top = ltop, p_middle = lmiddle, p_bottom = lbottom\<rparr>)"

subsection \<open>Words\<close>

text \<open>
  The left-to-right walk (\<open>alignment > 6 or alignment < 4\<close>). \<open>lp\<close> is the position of
  the line, \<open>cur_x\<close> the cursor.
\<close>

fun words_walk :: "int \<Rightarrow> Position \<Rightarrow> real \<Rightarrow> real \<Rightarrow> real \<Rightarrow> Word list \<Rightarrow> Word list" where
  "words_walk al lp space_width style_spacing cur_x [] = []"
| "words_walk al lp space_width style_spacing cur_x (word # words) =
     (let cur_x = cur_x + real (w_prespace word) * (space_width + style_spacing);
          wleft = cur_x;
          wcenter = wleft + the (w_width word) / 2;
          wright = wleft + the (w_width word);
          wx = (if (al - 1) mod 3 = 0 then wleft
                else if (al - 2) mod 3 = 0 then wcenter
                else wright);
          cur_x' = cur_x + the (w_width word)
                   + real (w_postspace word) * (space_width + style_spacing)
                   + style_spacing
      in word\<lparr>w_pos := Some \<lparr>p_x = wx, p_y = p_y lp,
                               p_left = wleft, p_center = wcenter, p_right = wright,
                               p_top = p_top lp, p_middle = p_middle lp,
                               p_bottom = p_bottom lp\<rparr>\<rparr>
         # words_walk al lp space_width style_spacing cur_x' words)"

text \<open>
  The vertical stack (the \<open>else\<close> branch). The second loop, with \<open>max_width\<close> from the
  first loop and the cursor \<open>cur_y\<close>.
\<close>

fun words_stack_loop :: "int \<Rightarrow> Meta \<Rightarrow> Position \<Rightarrow> real \<Rightarrow> real \<Rightarrow> Word list \<Rightarrow> Word list" where
  "words_stack_loop al meta lp max_width cur_y [] = []"
| "words_stack_loop al meta lp max_width cur_y (word # words) =
     (let x_fix = (max_width - the (w_width word)) / 2;
          wleft = (if al = 4 then p_left lp + x_fix
                   else if al = 5 then real_of_int (play_res_x meta) / 2 - the (w_width word) / 2
                   else p_right lp - the (w_width word) - x_fix);
          wcenter = wleft + the (w_width word) / 2;
          wright = wleft + the (w_width word);
          wx = (if al = 4 then wleft else if al = 5 then wcenter else wright);
          wtop = cur_y;
          wmiddle = wtop + the (w_height word) / 2;
          wbottom = wtop + the (w_height word)
      in word\<lparr>w_pos := Some \<lparr>p_x = wx, p_y = wmiddle,
                               p_left = wleft, p_center = wcenter, p_right = wright,
                               p_top = wtop, p_middle = wmiddle, p_bottom = wbottom\<rparr>\<rparr>
         # words_stack_loop al meta lp max_width (cur_y + the (w_height word)) words)"

definition words_stack :: "int \<Rightarrow> Meta \<Rightarrow> Position \<Rightarrow> Word list \<Rightarrow> Word list" where
  "words_stack al meta lp words =
     (let max_width = foldl (\<lambda>m word. max m (the (w_width word))) 0 words;
          sum_height = foldl (\<lambda>h word. h + the (w_height word)) 0 words;
          cur_y = real_of_int (play_res_y meta) / 2 - sum_height / 2
      in words_stack_loop al meta lp max_width cur_y words)"

text \<open>The branch on the alignment; \<open>vertical_kanji\<close> is not consulted for words.\<close>

definition position_words ::
  "Meta \<Rightarrow> Style \<Rightarrow> Position \<Rightarrow> real \<Rightarrow> real \<Rightarrow> Word list \<Rightarrow> Word list" where
  "position_words meta style lp space_width style_spacing words =
     (if alignment style > 6 \<or> alignment style < 4
      then words_walk (alignment style) lp space_width style_spacing (p_left lp) words
      else words_stack (alignment style) meta lp words)"

subsection \<open>Syllables\<close>

fun syls_walk :: "int \<Rightarrow> Position \<Rightarrow> real \<Rightarrow> real \<Rightarrow> real \<Rightarrow> Syllable list \<Rightarrow> Syllable list" where
  "syls_walk al lp space_width style_spacing cur_x [] = []"
| "syls_walk al lp space_width style_spacing cur_x (syl # syls) =
     (let cur_x = cur_x + real (s_prespace syl) * (space_width + style_spacing);
          sleft = cur_x;
          scenter = sleft + the (s_width syl) / 2;
          sright = sleft + the (s_width syl);
          sx = (if (al - 1) mod 3 = 0 then sleft
                else if (al - 2) mod 3 = 0 then scenter
                else sright);
          cur_x' = cur_x + the (s_width syl)
                   + real (s_postspace syl) * (space_width + style_spacing)
                   + style_spacing
      in syl\<lparr>s_pos := Some \<lparr>p_x = sx, p_y = p_y lp,
                              p_left = sleft, p_center = scenter, p_right = sright,
                              p_top = p_top lp, p_middle = p_middle lp,
                              p_bottom = p_bottom lp\<rparr>\<rparr>
         # syls_walk al lp space_width style_spacing cur_x' syls)"

text \<open>
  The vertical stack of syllables (\<open># Kanji vertical position\<close>). \<open>lp\<close> is the line's
  position after \<open># Fixing line positions\<close>.
\<close>

fun syls_stack_loop :: "int \<Rightarrow> Position \<Rightarrow> real \<Rightarrow> real \<Rightarrow> Syllable list \<Rightarrow> Syllable list" where
  "syls_stack_loop al lp max_width cur_y [] = []"
| "syls_stack_loop al lp max_width cur_y (syl # syls) =
     (let x_fix = (max_width - the (s_width syl)) / 2;
          sleft = (if al = 4 then p_left lp + x_fix
                   else if al = 5 then p_center lp - the (s_width syl) / 2
                   else p_right lp - the (s_width syl) - x_fix);
          scenter = sleft + the (s_width syl) / 2;
          sright = sleft + the (s_width syl);
          sx = (if al = 4 then sleft else if al = 5 then scenter else sright);
          stop = cur_y;
          smiddle = stop + the (s_height syl) / 2;
          sbottom = stop + the (s_height syl)
      in syl\<lparr>s_pos := Some \<lparr>p_x = sx, p_y = smiddle,
                              p_left = sleft, p_center = scenter, p_right = sright,
                              p_top = stop, p_middle = smiddle, p_bottom = sbottom\<rparr>\<rparr>
         # syls_stack_loop al lp max_width (cur_y + the (s_height syl)) syls)"

text \<open>
  \<open># Fixing line positions\<close>: the line's vertical coordinates, width and height, and two
  of its three horizontal coordinates are overwritten; \<open>x\<close> and \<open>y\<close> are not.
\<close>

definition fix_line_position :: "int \<Rightarrow> Meta \<Rightarrow> Position \<Rightarrow> real \<Rightarrow> real \<Rightarrow> Position" where
  "fix_line_position al meta lp max_width sum_height =
     (let cur_y = real_of_int (play_res_y meta) / 2 - sum_height / 2;
          lp = lp\<lparr>p_top := cur_y,
                  p_middle := real_of_int (play_res_y meta) / 2,
                  p_bottom := cur_y + sum_height\<rparr>
      in if al = 4 then
           lp\<lparr>p_center := p_left lp + max_width / 2, p_right := p_left lp + max_width\<rparr>
         else if al = 5 then
           lp\<lparr>p_left := p_center lp - max_width / 2,
              p_right := p_center lp - max_width / 2 + max_width\<rparr>
         else
           lp\<lparr>p_left := p_right lp - max_width,
              p_center := p_right lp - max_width + max_width / 2\<rparr>)"

text \<open>The result is the line's new position, width and height, and the syllables.\<close>

definition syls_stack ::
  "int \<Rightarrow> Meta \<Rightarrow> Position \<Rightarrow> Syllable list \<Rightarrow> Position \<times> real \<times> real \<times> Syllable list" where
  "syls_stack al meta lp syls =
     (let max_width = foldl (\<lambda>m syl. max m (the (s_width syl))) 0 syls;
          sum_height = foldl (\<lambda>h syl. h + the (s_height syl)) 0 syls;
          cur_y = real_of_int (play_res_y meta) / 2 - sum_height / 2;
          lp' = fix_line_position al meta lp max_width sum_height
      in (lp', max_width, sum_height, syls_stack_loop al lp' max_width cur_y syls))"

text \<open>The branch on the alignment and on \<open>vertical_kanji\<close>.\<close>

definition position_syls ::
  "bool \<Rightarrow> Meta \<Rightarrow> Style \<Rightarrow> Position \<Rightarrow> real \<Rightarrow> real \<Rightarrow> real \<Rightarrow> real \<Rightarrow> Syllable list
     \<Rightarrow> Position \<times> real \<times> real \<times> Syllable list" where
  "position_syls vertical_kanji meta style lp width height space_width style_spacing syls =
     (if alignment style > 6 \<or> alignment style < 4 \<or> \<not> vertical_kanji
      then (lp, width, height,
            syls_walk (alignment style) lp space_width style_spacing (p_left lp) syls)
      else syls_stack (alignment style) meta lp syls)"

section \<open>Chars\<close>

text \<open>
  The chars of one element (a syllable or a word): one \<open>Char\<close> per character of
  \<open>el_text\<close>, the element's text padded with its spaces. \<open>char_index\<close> is the running
  index over the line; \<open>syl_i\<close> is the syllable's index, \<open>None\<close> when the elements are
  words, and then \<open>syl_i\<close> and \<open>syl_char_i\<close> stay unset.
\<close>

definition el_chars ::
  "Font \<Rightarrow> nat \<Rightarrow> nat \<Rightarrow> nat option \<Rightarrow> int \<Rightarrow> int \<Rightarrow> int \<Rightarrow> string \<Rightarrow> Char list" where
  "el_chars font char_index word_i syl_i start_time end_time duration el_text =
     map (\<lambda>(ci, char_text).
            \<lparr>c_i = char_index + ci,
             c_word_i = word_i,
             c_syl_i = syl_i,
             c_syl_char_i = (case syl_i of None \<Rightarrow> None | Some _ \<Rightarrow> Some ci),
             c_start_time = start_time, c_end_time = end_time, c_duration = duration,
             c_text = [char_text],
             c_width = Some (fst (get_text_extents font [char_text])),
             c_height = Some (snd (get_text_extents font [char_text])),
             c_pos = None\<rparr>)
         (enumerate 0 el_text)"

fun syl_chars :: "Font \<Rightarrow> nat \<Rightarrow> Syllable list \<Rightarrow> Char list" where
  "syl_chars font char_index [] = []"
| "syl_chars font char_index (el # els) =
     (let el_text = replicate (s_prespace el) CHR '' '' @ s_text el
                    @ replicate (s_postspace el) CHR '' ''
      in el_chars font char_index (s_word_i el) (Some (s_i el))
           (s_start_time el) (s_end_time el) (s_duration el) el_text
         @ syl_chars font (char_index + length el_text) els)"

fun word_chars :: "Font \<Rightarrow> nat \<Rightarrow> Word list \<Rightarrow> Char list" where
  "word_chars font char_index [] = []"
| "word_chars font char_index (el # els) =
     (let el_text = replicate (w_prespace el) CHR '' '' @ w_text el
                    @ replicate (w_postspace el) CHR '' ''
      in el_chars font char_index (w_i el) None
           (w_start_time el) (w_end_time el) (w_duration el) el_text
         @ word_chars font (char_index + length el_text) els)"

subsection \<open>Positions of chars\<close>

fun chars_walk :: "int \<Rightarrow> Position \<Rightarrow> real \<Rightarrow> real \<Rightarrow> Char list \<Rightarrow> Char list" where
  "chars_walk al lp style_spacing cur_x [] = []"
| "chars_walk al lp style_spacing cur_x (char # chars) =
     (let cleft = cur_x;
          ccenter = cleft + the (c_width char) / 2;
          cright = cleft + the (c_width char);
          cx = (if (al - 1) mod 3 = 0 then cleft
                else if (al - 2) mod 3 = 0 then ccenter
                else cright)
      in char\<lparr>c_pos := Some \<lparr>p_x = cx, p_y = p_y lp,
                               p_left = cleft, p_center = ccenter, p_right = cright,
                               p_top = p_top lp, p_middle = p_middle lp,
                               p_bottom = p_bottom lp\<rparr>\<rparr>
         # chars_walk al lp style_spacing (cur_x + the (c_width char) + style_spacing) chars)"

fun chars_stack_loop :: "int \<Rightarrow> Meta \<Rightarrow> Position \<Rightarrow> real \<Rightarrow> real \<Rightarrow> Char list \<Rightarrow> Char list" where
  "chars_stack_loop al meta lp max_width cur_y [] = []"
| "chars_stack_loop al meta lp max_width cur_y (char # chars) =
     (let x_fix = (max_width - the (c_width char)) / 2;
          cleft = (if al = 4 then p_left lp + x_fix
                   else if al = 5 then real_of_int (play_res_x meta) / 2 - the (c_width char) / 2
                   else p_right lp - the (c_width char) - x_fix);
          ccenter = cleft + the (c_width char) / 2;
          cright = cleft + the (c_width char);
          cx = (if al = 4 then cleft else if al = 5 then ccenter else cright);
          ctop = cur_y;
          cmiddle = ctop + the (c_height char) / 2;
          cbottom = ctop + the (c_height char)
      in char\<lparr>c_pos := Some \<lparr>p_x = cx, p_y = cmiddle,
                               p_left = cleft, p_center = ccenter, p_right = cright,
                               p_top = ctop, p_middle = cmiddle, p_bottom = cbottom\<rparr>\<rparr>
         # chars_stack_loop al meta lp max_width (cur_y + the (c_height char)) chars)"

definition chars_stack :: "int \<Rightarrow> Meta \<Rightarrow> Position \<Rightarrow> Char list \<Rightarrow> Char list" where
  "chars_stack al meta lp chars =
     (let max_width = foldl (\<lambda>m char. max m (the (c_width char))) 0 chars;
          sum_height = foldl (\<lambda>h char. h + the (c_height char)) 0 chars;
          cur_y = real_of_int (play_res_y meta) / 2 - sum_height / 2
      in chars_stack_loop al meta lp max_width cur_y chars)"

text \<open>The branch on the alignment; \<open>vertical_kanji\<close> is not consulted for chars.\<close>

definition position_chars :: "Meta \<Rightarrow> Style \<Rightarrow> Position \<Rightarrow> real \<Rightarrow> Char list \<Rightarrow> Char list" where
  "position_chars meta style lp style_spacing chars =
     (if alignment style > 6 \<or> alignment style < 4
      then chars_walk (alignment style) lp style_spacing (p_left lp) chars
      else chars_stack (alignment style) meta lp chars)"

section \<open>One line of the extended computation\<close>

text \<open>
  The body of \<open>if line.styleref:\<close> for a line whose style is resolved to \<open>style\<close>, with
  \<open>font = Font(line.styleref)\<close>, block by block. \<open>line.width\<close>, \<open>line.height\<close>,
  \<open>line.words\<close>, \<open>line.syls\<close> and \<open>line.chars\<close> are assigned on every path; the positions
  of the line and of its elements only under \<open>play_res_x > 0 and play_res_y > 0\<close>, so the
  line's position is handed on as the local \<open>lp\<close> and stored at the end.
\<close>

text \<open>\<open># Adding words\<close> and \<open># Calculate word positions\<close>.\<close>

definition line_words :: "Meta \<Rightarrow> Font \<Rightarrow> Style \<Rightarrow> Line \<Rightarrow> Position \<Rightarrow> Word list" where
  "line_words meta font style line lp =
     (let space_width = fst (get_text_extents font '' '');
          style_spacing = spacing style;
          words = make_words font line 0 (find_words (l_text line))
      in if words \<noteq> [] \<and> play_res_x meta > 0 \<and> play_res_y meta > 0
         then position_words meta style lp space_width style_spacing words
         else words)"

text \<open>
  \<open># Calculate syllables positions\<close>, on the syllables of the extractor. The result is
  the line's position, width and height after the pass, and the syllables.
\<close>

definition place_syls ::
  "bool \<Rightarrow> Meta \<Rightarrow> Font \<Rightarrow> Style \<Rightarrow> Position \<Rightarrow> real \<Rightarrow> real \<Rightarrow> Syllable list
     \<Rightarrow> Position \<times> real \<times> real \<times> Syllable list" where
  "place_syls vertical_kanji meta font style lp width height syls =
     (let space_width = fst (get_text_extents font '' '');
          style_spacing = spacing style
      in if syls \<noteq> [] \<and> play_res_x meta > 0 \<and> play_res_y meta > 0
         then position_syls vertical_kanji meta style lp width height
                space_width style_spacing syls
         else (lp, width, height, syls))"

text \<open>\<open># Adding chars\<close> and \<open># Calculate character positions\<close>.\<close>

definition line_chars ::
  "Meta \<Rightarrow> Font \<Rightarrow> Style \<Rightarrow> Position \<Rightarrow> Word list \<Rightarrow> Syllable list \<Rightarrow> Char list" where
  "line_chars meta font style lp words syls =
     (let chars = (if syls \<noteq> [] then syl_chars font 0 syls else word_chars font 0 words)
      in if chars \<noteq> [] \<and> play_res_x meta > 0 \<and> play_res_y meta > 0
         then position_chars meta style lp (spacing style) chars
         else chars)"

definition extend_line :: "bool \<Rightarrow> Meta \<Rightarrow> Font \<Rightarrow> Style \<Rightarrow> Line \<Rightarrow> error + Line" where
  "extend_line vertical_kanji meta font style line =
     (let width = fst (get_text_extents font (l_text line));
          height = snd (get_text_extents font (l_text line));
          lp = line_position meta style line width height;
          words = line_words meta font style line lp
      in case line_syls font (l_raw_text line) of
           Inl e \<Rightarrow> Inl e
         | Inr syls0 \<Rightarrow>
             (case place_syls vertical_kanji meta font style lp width height syls0 of
                (lp', width', height', syls) \<Rightarrow>
                  Inr (line\<lparr>l_width := width', l_height := height',
                            l_pos := (if play_res_x meta > 0 \<and> play_res_y meta > 0
                                      then Some lp' else l_pos line),
                            l_words := words, l_syls := syls,
                            l_chars := line_chars meta font style lp' words syls\<rparr>)))"

text \<open>
  The loop body of \<open>for li, line in enumerate(self.lines)\<close>: the style is looked up by
  name, duration and stripped text are assigned, and the rest runs only for a resolved
  style. \<open>font_of\<close> stands for the constructor \<open>Font\<close>.
\<close>

definition process_line ::
  "bool \<Rightarrow> Meta \<Rightarrow> (string \<rightharpoonup> Style) \<Rightarrow> (Style \<Rightarrow> Font) \<Rightarrow> Line \<Rightarrow> error + Line" where
  "process_line vertical_kanji meta styles font_of line =
     (let line = line\<lparr>l_styleref := styles (l_style line),
                      l_duration := l_end_time line - l_start_time line,
                      l_text := strip_tags (l_raw_text line)\<rparr>
      in case l_styleref line of
           None \<Rightarrow> Inr line
         | Some style \<Rightarrow> extend_line vertical_kanji meta (font_of style) style line)"

section \<open>Notions of the statements\<close>

text \<open>
  The karaoke duration tags of a tag string, read position by position and
  independently of the matching loop: at every position where \<open>\\[kK][of]?\d+\<close> matches,
  the duration value of that tag (centiseconds).
\<close>

fun karaoke_durations :: "string \<Rightarrow> int list" where
  "karaoke_durations [] = []"
| "karaoke_durations (c # cs) =
     (case ktag_at (c # cs) of
        Some (kdur, rest) \<Rightarrow> int_of_digits kdur # karaoke_durations cs
      | None \<Rightarrow> karaoke_durations cs)"

text \<open>
  The duration values of all karaoke tags of a line, chunk after chunk.
\<close>

definition line_durations :: "string \<Rightarrow> int list" where
  "line_durations raw_text =
     concat (map (\<lambda>tc. karaoke_durations (tc_tags tc)) (text_chunks raw_text))"


text \<open>
  A running clock over \<open>(start_time, end_time, duration)\<close> triples: the first
  starts at \<open>t\<close>, each ends at its start plus its duration, each next one starts where
  the previous one ended.
\<close>

fun clocked :: "int \<Rightarrow> (int \<times> int \<times> int) list \<Rightarrow> bool" where
  "clocked t [] = True"
| "clocked t ((start_time, end_time, duration) # rest) =
     (start_time = t \<and> end_time = start_time + duration \<and> clocked end_time rest)"

text \<open>
  The times of a provisional and of a final syllable.
\<close>

definition ps_times :: "provisional_syl \<Rightarrow> int \<times> int \<times> int" where
  "ps_times p = (ps_start_time p, ps_end_time p, ps_duration p)"

definition s_times :: "Syllable \<Rightarrow> int \<times> int \<times> int" where
  "s_times s = (s_start_time s, s_end_time s, s_duration s)"

text \<open>
  A final syllable made from a provisional one: it keeps index, word index and times,
  its size is measured on its text, and it has no position yet.
\<close>

definition finished :: "Font \<Rightarrow> Syllable \<Rightarrow> provisional_syl \<Rightarrow> bool" where
  "finished font s p \<longleftrightarrow>
     s_i s = ps_i p \<and> s_word_i s = ps_word_i p \<and> s_times s = ps_times p
     \<and> s_width s = Some (fst (get_text_extents font (s_text s)))
     \<and> s_height s = Some (snd (get_text_extents font (s_text s)))
     \<and> s_pos s = None"

text \<open>
  A hidden syllable: empty text and no spaces.
\<close>

definition hidden :: "Syllable \<Rightarrow> bool" where
  "hidden s \<longleftrightarrow> s_text s = [] \<and> s_prespace s = 0 \<and> s_postspace s = 0"

text \<open>
  The split of a chunk's text \<open>t\<close> into the spaces and text of its last syllable: a
  text of whitespace only is kept whole; any other text is leading whitespace, a core
  that neither starts nor ends with whitespace, and trailing whitespace.
\<close>

definition text_split :: "string \<Rightarrow> Syllable \<Rightarrow> bool" where
  "text_split t s \<longleftrightarrow>
     (if t \<noteq> [] \<and> list_all is_space t
      then s_prespace s = 0 \<and> s_text s = t \<and> s_postspace s = 0
      else \<exists>pre post. t = pre @ s_text s @ post
             \<and> list_all is_space pre \<and> length pre = s_prespace s
             \<and> list_all is_space post \<and> length post = s_postspace s
             \<and> (s_text s = [] \<or> \<not> is_space (hd (s_text s)) \<and> \<not> is_space (last (s_text s))))"

text \<open>
  A chunk as the splitter makes it from a raw text without line feed: no line feed in
  its tags or text, and no tags when it has no word index.
\<close>

definition sound_chunk :: "chunk \<Rightarrow> bool" where
  "sound_chunk tc \<longleftrightarrow>
     LF \<notin> set (tc_tags tc) \<and> LF \<notin> set (tc_text tc)
     \<and> (tc_word_i tc = None \<longrightarrow> tc_tags tc = [])"

text \<open>
  A running word index over chunks: it starts at \<open>w\<close> and goes up by one after each
  chunk whose text ends in whitespace.
\<close>

fun running_word_i :: "nat \<Rightarrow> chunk list \<Rightarrow> nat list" where
  "running_word_i w [] = []"
| "running_word_i w (tc # tcs) =
     w # running_word_i (if tc_text tc \<noteq> [] \<and> is_space (last (tc_text tc)) then w + 1 else w) tcs"

text \<open>
  An element after the position pass: the same element with a position.
\<close>

definition placed_word :: "Word \<Rightarrow> Word \<Rightarrow> bool" where
  "placed_word w' w \<longleftrightarrow> (\<exists>p. w' = w\<lparr>w_pos := Some p\<rparr>)"

definition placed_syl :: "Syllable \<Rightarrow> Syllable \<Rightarrow> bool" where
  "placed_syl s' s \<longleftrightarrow> (\<exists>p. s' = s\<lparr>s_pos := Some p\<rparr>)"

definition placed_char :: "Char \<Rightarrow> Char \<Rightarrow> bool" where
  "placed_char c' c \<longleftrightarrow> (\<exists>p. c' = c\<lparr>c_pos := Some p\<rparr>)"

text \<open>
  The syllables of a processed line against those of the extractor: the same, or the
  same with positions.
\<close>

definition same_syls :: "Syllable list \<Rightarrow> Syllable list \<Rightarrow> bool" where
  "same_syls syls' syls \<longleftrightarrow> syls' = syls \<or> list_all2 placed_syl syls' syls"

text \<open>
  An element as the segmentation leaves it: width and height measured, no position.
\<close>

definition unplaced_word :: "Word \<Rightarrow> bool" where
  "unplaced_word w \<longleftrightarrow> w_width w \<noteq> None \<and> w_height w \<noteq> None \<and> w_pos w = None"

definition unplaced_syl :: "Syllable \<Rightarrow> bool" where
  "unplaced_syl s \<longleftrightarrow> s_width s \<noteq> None \<and> s_height s \<noteq> None \<and> s_pos s = None"

definition unplaced_char :: "Char \<Rightarrow> bool" where
  "unplaced_char c \<longleftrightarrow> c_width c \<noteq> None \<and> c_height c \<noteq> None \<and> c_pos c = None"

text \<open>
  \<open>self.meta.play_res_x > 0 and self.meta.play_res_y > 0\<close>.
\<close>

definition res_ok :: "Meta \<Rightarrow> bool" where
  "res_ok meta \<longleftrightarrow> play_res_x meta > 0 \<and> play_res_y meta > 0"

section \<open>Example inputs\<close>

text \<open>
  A fixed-pitch font (every character 10 wide, every text 20 high), a style with a given
  alignment code, a 1280 by 720 script, and a dialogue line from 0 to 2000 ms with a
  given raw text, as the parser leaves it.
\<close>

definition example_font :: Font where
  "example_font = \<lparr>get_text_extents = (\<lambda>t. (10 * real (length t), 20))\<rparr>"

definition example_style :: "int \<Rightarrow> Style" where
  "example_style al =
     \<lparr>spacing = 0, alignment = al, st_margin_l = 10, st_margin_r = 10, st_margin_v = 10\<rparr>"

definition example_styles :: "int \<Rightarrow> (string \<rightharpoonup> Style)" where
  "example_styles al = [''Default'' \<mapsto> example_style al]"

definition example_meta :: Meta where
  "example_meta = \<lparr>play_res_x = 1280, play_res_y = 720\<rparr>"

definition example_line :: "string \<Rightarrow> Line" where
  "example_line raw =
     \<lparr>l_i = 0, l_comment = False, l_layer = 0, l_start_time = 0, l_end_time = 2000,
      l_duration = 0, l_leadin = 0, l_leadout = 0, l_style = ''Default'', l_styleref = None,
      l_actor = [], l_margin_l = 0, l_margin_r = 0, l_margin_v = 0, l_effect = [],
      l_raw_text = raw, l_text = [], l_width = 0, l_height = 0, l_pos = None,
      l_words = [], l_syls = [], l_chars = []\<rparr>"

text \<open>
  The raw texts \<open>{\k50}Hel{\k30}lo {\k40}world\<close> and \<open>Hi {\b1}there\<close>, and a chunk with
  the tags \<open>\k5\k6\b1\<close> and the text \<open> a b  \<close>.
\<close>

definition karaoke_example :: string where
  "karaoke_example =
     ''{'' @ backslash # ''k50}Hel{'' @ backslash # ''k30}lo {'' @ backslash # ''k40}world''"

definition leading_text_example :: string where
  "leading_text_example = ''Hi {'' @ backslash # ''b1}there''"


text \<open>
  A script whose play resolution is 0 by 720.
\<close>

definition zero_width_meta :: Meta where
  "zero_width_meta = \<lparr>play_res_x = 0, play_res_y = 720\<rparr>"

section \<open>A line without tags\<close>

lemma strip_tags_hi_there: "strip_tags ''Hi there'' = ''Hi there''"
  by simp

lemma find_words_hi_there:
  "find_words ''Hi there'' = [([], ''Hi'', '' ''), ([], ''there'', [])]"
  by code_simp

lemma text_chunks_hi_there:
  "text_chunks ''Hi there'' = [\<lparr>tc_tags = [], tc_text = ''Hi there'', tc_word_i = None\<rparr>]"
  by (simp add: text_chunks_def)

lemma line_syls_hi_there: "line_syls font ''Hi there'' = Inr []"
  by (simp add: line_syls_def text_chunks_hi_there)

lemma process_line_hi_there:
  assumes "l_raw_text line = ''Hi there''" and "styles (l_style line) = Some style"
  shows "\<exists>line'. process_line vertical_kanji meta styles font_of line = Inr line'
           \<and> l_syls line' = []
           \<and> map (\<lambda>w. (w_text w, w_prespace w, w_postspace w)) (l_words line')
               = [(''Hi'', 0, 1), (''there'', 0, 0)]"
  using assms
  by (simp add: process_line_def extend_line_def line_words_def place_syls_def
        strip_tags_hi_there find_words_hi_there line_syls_hi_there Let_def
        position_words_def words_stack_def)

text \<open>
  C5, as stated: the line \<open>Hi there\<close> gives no syllables and the two words \<open>Hi\<close> and
  \<open>there\<close>, both with prespace 0 and postspace 0. This fails: the third group of the
  word pattern takes the space after \<open>Hi\<close>, so the first word has postspace 1.
\<close>

theorem C5_counterexample:
  "\<not> (\<exists>line'. process_line True example_meta (example_styles 2) (\<lambda>_. example_font)
                  (example_line ''Hi there'') = Inr line'
        \<and> l_syls line' = []
        \<and> map (\<lambda>w. (w_text w, w_prespace w, w_postspace w)) (l_words line')
            = [(''Hi'', 0, 0), (''there'', 0, 0)])"
proof -
  have a: "l_raw_text (example_line ''Hi there'') = ''Hi there''"
    by (simp add: example_line_def)
  have b: "example_styles 2 (l_style (example_line ''Hi there'')) = Some (example_style 2)"
    by (simp add: example_line_def example_styles_def)
  have "\<exists>line'. process_line True example_meta (example_styles 2) (\<lambda>_. example_font)
                  (example_line ''Hi there'') = Inr line'
        \<and> l_syls line' = []
        \<and> map (\<lambda>w. (w_text w, w_prespace w, w_postspace w)) (l_words line')
            = [(''Hi'', 0, 1), (''there'', 0, 0)]"
    by (rule process_line_hi_there
          [where line = "example_line ''Hi there''" and styles = "example_styles 2" and style = "example_style 2", OF a b])
  then show ?thesis
    by (elim exE conjE) simp
qed

text \<open>
  C5, amended: a line whose raw text is \<open>Hi there\<close>, with a resolved style, gives no
  syllables and exactly the two words \<open>Hi\<close>, with prespace 0 and postspace 1, and
  \<open>there\<close>, with prespace 0 and postspace 0, whatever the font, the style, the script
  resolution and the vertical-kanji flag are.
\<close>

theorem C5_hi_there:
  assumes "l_raw_text line = ''Hi there''" and "styles (l_style line) = Some style"
  shows "\<exists>line'. process_line vertical_kanji meta styles font_of line = Inr line'
           \<and> l_syls line' = []
           \<and> length (l_words line') = 2
           \<and> map (\<lambda>w. (w_text w, w_prespace w, w_postspace w)) (l_words line')
               = [(''Hi'', 0, 1), (''there'', 0, 0)]"
proof -
  have "\<exists>line'. process_line vertical_kanji meta styles font_of line = Inr line'
           \<and> l_syls line' = []
           \<and> map (\<lambda>w. (w_text w, w_prespace w, w_postspace w)) (l_words line')
               = [(''Hi'', 0, 1), (''there'', 0, 0)]"
    by (rule process_line_hi_there
          [where line = line and styles = styles and style = style, OF assms])
  then show ?thesis
  proof (elim exE conjE)
    fix line'
    assume l: "process_line vertical_kanji meta styles font_of line = Inr line'"
      "l_syls line' = []"
      "map (\<lambda>w. (w_text w, w_prespace w, w_postspace w)) (l_words line')
         = [(''Hi'', 0, 1), (''there'', 0, 0)]"
    have "length (map (\<lambda>w. (w_text w, w_prespace w, w_postspace w)) (l_words line')) = 2"
      unfolding l(3) by simp
    then have "length (l_words line') = 2" by simp
    with l show ?thesis by (intro exI [of _ line'] conjI)
  qed
qed

theorem C5_hi_there_witness:
  "l_raw_text (example_line ''Hi there'') = ''Hi there''
   \<and> example_styles 2 (l_style (example_line ''Hi there'')) = Some (example_style 2)
   \<and> (\<exists>line'. process_line True example_meta (example_styles 2) (\<lambda>_. example_font)
                  (example_line ''Hi there'') = Inr line'
        \<and> l_syls line' = []
        \<and> length (l_words line') = 2
        \<and> map (\<lambda>w. (w_text w, w_prespace w, w_postspace w)) (l_words line')
            = [(''Hi'', 0, 1), (''there'', 0, 0)])"
proof -
  have a: "l_raw_text (example_line ''Hi there'') = ''Hi there''"
    by (simp add: example_line_def)
  have b: "example_styles 2 (l_style (example_line ''Hi there'')) = Some (example_style 2)"
    by (simp add: example_line_def example_styles_def)
  show ?thesis
    by (intro conjI a b C5_hi_there
          [where line = "example_line ''Hi there''" and styles = "example_styles 2" and style = "example_style 2", OF a b])
qed

section \<open>Lemmas on the syllable extractor and the chunk splitter\<close>

lemma is_digit_not_backslash: "is_digit c \<Longrightarrow> c \<noteq> backslash"
  by (auto simp: is_digit_def backslash_def)

lemma ktag_at_Cons_None: "c \<noteq> backslash \<Longrightarrow> ktag_at (c # cs) = None"
  by (cases cs) auto

lemma karaoke_durations_skip:
  "backslash \<notin> set mid \<Longrightarrow> karaoke_durations (mid @ rest) = karaoke_durations rest"
  by (induction mid) (auto simp: ktag_at_Cons_None simp del: ktag_at.simps)

lemma ktag_at_split:
  assumes "ktag_at s = Some (kdur, rest)"
  shows "\<exists>mid. s = backslash # mid @ rest \<and> backslash \<notin> set mid \<and> kdur \<noteq> []"
proof (cases s rule: ktag_at.cases)
  case (1 b k cs)
  define cs1 where "cs1 = (case cs of [] \<Rightarrow> cs
     | c # cs' \<Rightarrow> if c = CHR ''o'' \<or> c = CHR ''f'' then cs' else cs)"
  from assms 1 have b: "b = backslash" and k: "k = CHR ''k'' \<or> k = CHR ''K''"
    and kd: "kdur = takeWhile is_digit cs1" "kdur \<noteq> []" and r: "rest = dropWhile is_digit cs1"
    by (auto simp: cs1_def Let_def split: if_splits)
  have "\<exists>m. cs = m @ cs1 \<and> backslash \<notin> set m"
    by (cases cs) (auto simp: cs1_def backslash_def)
  then obtain m where m: "cs = m @ cs1" "backslash \<notin> set m" by blast
  have "cs1 = kdur @ rest" by (simp add: kd r)
  moreover have "backslash \<notin> set kdur"
    unfolding kd using is_digit_not_backslash by (auto dest: set_takeWhileD)
  ultimately have "s = backslash # (k # m @ kdur) @ rest \<and> backslash \<notin> set (k # m @ kdur)"
    using 1 b k m by (auto simp: backslash_def)
  with kd show ?thesis by blast
qed (use assms in simp_all)

lemma syl_tags_match_None:
  "LF \<notin> set s \<Longrightarrow> syl_tags_match s = None \<Longrightarrow> karaoke_durations s = []"
  by (induction s) (auto split: option.splits if_splits simp del: ktag_at.simps)

lemma karaoke_durations_Nil_match:
  "karaoke_durations s = [] \<Longrightarrow> syl_tags_match s = None"
  by (induction s) (auto split: option.splits if_splits simp del: ktag_at.simps)

lemma syl_tags_match_Some:
  "LF \<notin> set s \<Longrightarrow> syl_tags_match s = Some (pretags, kdur, posttags) \<Longrightarrow>
     karaoke_durations s = int_of_digits kdur # karaoke_durations posttags
     \<and> set posttags \<subseteq> set s \<and> set pretags \<subseteq> set s"
proof (induction s arbitrary: pretags)
  case Nil
  then show ?case by simp
next
  case (Cons c cs)
  show ?case
  proof (cases "ktag_at (c # cs)")
    case None
    with Cons.prems obtain pre' where m: "syl_tags_match cs = Some (pre', kdur, posttags)"
      and p: "pretags = c # pre'"
      by (auto split: if_splits option.splits)
    from Cons.IH [OF _ m] Cons.prems(1) None p show ?thesis
      by auto
  next
    case (Some q)
    obtain kd rest where q: "q = (kd, rest)" by (cases q)
    from ktag_at_split [OF Some [unfolded q]] obtain mid where
      mid: "c # cs = backslash # mid @ rest" "backslash \<notin> set mid" by blast
    from Cons.prems Some q have e: "kdur = kd" "pretags = []"
      "posttags = takeWhile (\<lambda>x. x \<noteq> LF) rest" by auto
    from mid Cons.prems(1) have "LF \<notin> set rest" by auto
    then have pr: "posttags = rest" unfolding e by (auto intro: takeWhile_eq_all_conv [THEN iffD2])
    have "karaoke_durations cs = karaoke_durations rest"
      using mid karaoke_durations_skip [of mid rest] by simp
    with Some q e pr mid show ?thesis by auto
  qed
qed

lemma clocked_append:
  "clocked t (xs @ ys) \<longleftrightarrow>
     clocked t xs \<and> clocked (t + sum_list (map (\<lambda>(s, e, d). d) xs)) ys"
  by (induction xs arbitrary: t) (auto simp: algebra_simps)

lemma peel_syls_spec:
  "LF \<notin> set posttags \<Longrightarrow> tc_word_i tc = Some w \<Longrightarrow>
   \<exists>new leftover.
     peel_syls tc posttags si lt acc
       = Inr (acc @ new, leftover, si + length (karaoke_durations posttags),
              lt + 10 * sum_list (karaoke_durations posttags))
     \<and> map ps_duration new = map (\<lambda>d. d * 10) (karaoke_durations posttags)
     \<and> map ps_i new = [si ..< si + length (karaoke_durations posttags)]
     \<and> (\<forall>p\<in>set new. ps_word_i p = w)
     \<and> clocked lt (map ps_times new)
     \<and> karaoke_durations leftover = [] \<and> set leftover \<subseteq> set posttags"
proof (induction tc posttags si lt acc rule: peel_syls.induct)
  case (1 tc posttags si last_time acc)
  show ?case
  proof (cases "syl_tags_match posttags")
    case None
    with "1.prems" have "karaoke_durations posttags = []"
      by (simp add: syl_tags_match_None)
    with None show ?thesis
      by (subst peel_syls.simps) simp
  next
    case (Some m)
    obtain pretags kdur posttags' where m: "m = (pretags, kdur, posttags')"
      by (cases m)
    from syl_tags_match_Some [OF "1.prems"(1) Some [unfolded m]]
    have kd: "karaoke_durations posttags = int_of_digits kdur # karaoke_durations posttags'"
      and sub: "set posttags' \<subseteq> set posttags" by auto
    from sub "1.prems"(1) have lf: "LF \<notin> set posttags'" by auto
    define p where "p = \<lparr>ps_i = si, ps_word_i = w,
                    ps_start_time = last_time,
                    ps_end_time = last_time + int_of_digits kdur * 10,
                    ps_duration = int_of_digits kdur * 10,
                    ps_tags = pretags\<rparr>"
    from "1.IH" [OF Some [unfolded m] refl refl "1.prems"(2) lf "1.prems"(2)]
    obtain new leftover where
      ih: "peel_syls tc posttags' (si + 1) (last_time + int_of_digits kdur * 10) (acc @ [p])
             = Inr ((acc @ [p]) @ new, leftover,
                    si + 1 + length (karaoke_durations posttags'),
                    last_time + int_of_digits kdur * 10
                      + 10 * sum_list (karaoke_durations posttags'))"
        "map ps_duration new = map (\<lambda>d. d * 10) (karaoke_durations posttags')"
        "map ps_i new = [si + 1 ..< si + 1 + length (karaoke_durations posttags')]"
        "\<forall>p\<in>set new. ps_word_i p = w"
        "clocked (last_time + int_of_digits kdur * 10) (map ps_times new)"
        "karaoke_durations leftover = []" "set leftover \<subseteq> set posttags'"
      unfolding p_def by blast
    have "peel_syls tc posttags si last_time acc
            = peel_syls tc posttags' (si + 1) (last_time + int_of_digits kdur * 10) (acc @ [p])"
      by (subst peel_syls.simps) (simp add: Some m "1.prems"(2) p_def)
    also note ih(1)
    finally have "peel_syls tc posttags si last_time acc
            = Inr (acc @ (p # new), leftover, si + length (karaoke_durations posttags),
                   last_time + 10 * sum_list (karaoke_durations posttags))"
      by (simp add: kd)
    moreover have "map ps_duration (p # new) = map (\<lambda>d. d * 10) (karaoke_durations posttags)"
      by (simp add: kd ih(2) p_def)
    moreover have "map ps_i (p # new) = [si ..< si + length (karaoke_durations posttags)]"
      by (simp add: kd ih(3) p_def upt_rec)
    moreover have "\<forall>q\<in>set (p # new). ps_word_i q = w"
      using ih(4) by (simp add: p_def)
    moreover have "clocked last_time (map ps_times (p # new))"
      using ih(5) by (simp add: p_def ps_times_def)
    moreover have "set leftover \<subseteq> set posttags"
      using ih(7) sub by auto
    ultimately show ?thesis using ih(6) by blast
  qed
qed

lemma finished_finish_syl:
  "finished font (finish_syl font p tags fx prespace text postspace) p"
  by (simp add: finished_def finish_syl_def s_times_def ps_times_def)

lemma hidden_syls_spec:
  "list_all2 (\<lambda>s p. finished font s p \<and> hidden s \<and> s_tags s = ps_tags p)
     (fst (hidden_syls font ps fx)) ps"
proof (induction ps arbitrary: fx)
  case Nil
  then show ?case by simp
next
  case (Cons p ps)
  show ?case
    using Cons.IH
    by (simp add: Let_def split_beta finished_finish_syl hidden_def)
       (simp add: finish_syl_def)
qed

lemma rstrip_trailing: "rstrip_space u @ trailing_space u = u"
proof -
  have "rev (takeWhile is_space (rev u) @ dropWhile is_space (rev u)) = u"
    by simp
  then show ?thesis
    unfolding rstrip_space_def trailing_space_def rev_append .
qed

lemma rstrip_space_last: "rstrip_space u \<noteq> [] \<Longrightarrow> \<not> is_space (last (rstrip_space u))"
  unfolding rstrip_space_def
  by (simp add: last_rev hd_dropWhile)

lemma rstrip_space_hd:
  assumes "rstrip_space u \<noteq> []"
  shows "hd (rstrip_space u) = hd u"
proof -
  have "hd (rstrip_space u @ trailing_space u) = hd (rstrip_space u)"
    using assms by simp
  then show ?thesis by (simp add: rstrip_trailing)
qed

lemma split_space_spec:
  assumes "LF \<notin> set t"
  shows "\<exists>pre core post. split_space t = Some (pre, core, post) \<and> t = pre @ core @ post
           \<and> list_all is_space pre \<and> list_all is_space post
           \<and> (core = [] \<or> \<not> is_space (hd core) \<and> \<not> is_space (last core))"
proof -
  define u where "u = dropWhile is_space t"
  have t: "t = takeWhile is_space t @ rstrip_space u @ trailing_space u"
    by (simp add: rstrip_trailing u_def)
  have "set (rstrip_space u) \<subseteq> set t"
    by (auto simp: rstrip_space_def u_def dest!: set_dropWhileD)
  with assms have "LF \<notin> set (rstrip_space u)" by auto
  then have "split_space t = Some (takeWhile is_space t, rstrip_space u, trailing_space u)"
    by (simp add: split_space_def u_def Let_def)
  moreover have "list_all is_space (takeWhile is_space t)"
    by (auto simp: list_all_iff dest: set_takeWhileD)
  moreover have "list_all is_space (trailing_space u)"
    by (auto simp: list_all_iff trailing_space_def dest: set_takeWhileD)
  moreover have "rstrip_space u = [] \<or>
      \<not> is_space (hd (rstrip_space u)) \<and> \<not> is_space (last (rstrip_space u))"
  proof (cases "rstrip_space u = []")
    case False
    then have "u \<noteq> []" by (auto simp: rstrip_space_def)
    then have "\<not> is_space (hd u)" unfolding u_def by (rule hd_dropWhile)
    with False show ?thesis by (simp add: rstrip_space_hd rstrip_space_last)
  qed simp
  ultimately show ?thesis using t by blast
qed

lemma last_syl_spec:
  assumes "LF \<notin> set (tc_text tc)"
  shows "\<exists>s fx'. last_syl font tc p posttags fx = Inr (s, fx')
           \<and> finished font s p \<and> s_tags s = ps_tags p @ posttags \<and> text_split (tc_text tc) s"
proof (cases "isspace (tc_text tc)")
  case True
  then show ?thesis
    by (simp add: last_syl_def Let_def finished_finish_syl text_split_def isspace_def)
       (simp add: finish_syl_def)
next
  case False
  from split_space_spec [OF assms] obtain pre core post where
    sp: "split_space (tc_text tc) = Some (pre, core, post)" "tc_text tc = pre @ core @ post"
      "list_all is_space pre" "list_all is_space post"
      "core = [] \<or> \<not> is_space (hd core) \<and> \<not> is_space (last core)"
    by blast
  define fx' where "fx' = (case inline_fx_search (ps_tags p @ posttags) of
                          Some name \<Rightarrow> name | None \<Rightarrow> fx)"
  define s where "s = finish_syl font p (ps_tags p @ posttags) fx' (length pre) core (length post)"
  have "last_syl font tc p posttags fx = Inr (s, fx')"
    using False sp(1) by (simp add: last_syl_def Let_def s_def fx'_def)
  moreover have "finished font s p"
    unfolding s_def by (rule finished_finish_syl)
  moreover have "s_tags s = ps_tags p @ posttags"
    by (simp add: s_def finish_syl_def)
  moreover have "text_split (tc_text tc) s"
  proof -
    have f: "s_text s = core" "s_prespace s = length pre" "s_postspace s = length post"
      by (simp_all add: s_def finish_syl_def)
    from False have "\<not> (tc_text tc \<noteq> [] \<and> list_all is_space (tc_text tc))"
      by (simp add: isspace_def)
    with sp f show ?thesis unfolding text_split_def by auto
  qed
  ultimately show ?thesis by blast
qed

lemma finished_maps:
  assumes "list_all2 (finished font) ss ps"
  shows "map s_i ss = map ps_i ps" and "map s_word_i ss = map ps_word_i ps"
    and "map s_times ss = map ps_times ps" and "map s_duration ss = map ps_duration ps"
  using assms
  by (induction rule: list_all2_induct)
     (auto simp: finished_def s_times_def ps_times_def)

lemma chunk_syls_spec:
  assumes lf: "LF \<notin> set (tc_tags tc)" "LF \<notin> set (tc_text tc)"
    and w: "tc_word_i tc = Some w"
    and k: "karaoke_durations (tc_tags tc) \<noteq> []"
  shows "\<exists>prov leftover hid final fx'.
      peel_syls tc (tc_tags tc) si lt []
        = Inr (prov, leftover, si + length (karaoke_durations (tc_tags tc)),
               lt + 10 * sum_list (karaoke_durations (tc_tags tc)))
    \<and> chunk_syls font tc si lt fx
        = Inr (hid @ [final], si + length (karaoke_durations (tc_tags tc)),
               lt + 10 * sum_list (karaoke_durations (tc_tags tc)), fx')
    \<and> prov \<noteq> []
    \<and> list_all2 (finished font) (hid @ [final]) prov
    \<and> (\<forall>s\<in>set hid. hidden s)
    \<and> map s_tags hid = map ps_tags (butlast prov)
    \<and> s_tags final = ps_tags (last prov) @ leftover
    \<and> karaoke_durations leftover = []
    \<and> text_split (tc_text tc) final
    \<and> map ps_duration prov = map (\<lambda>d. d * 10) (karaoke_durations (tc_tags tc))
    \<and> map ps_i prov = [si ..< si + length (karaoke_durations (tc_tags tc))]
    \<and> (\<forall>p\<in>set prov. ps_word_i p = w)
    \<and> clocked lt (map ps_times prov)"
proof -
  from peel_syls_spec [OF lf(1) w, of si lt "[]"] obtain prov leftover where
    peel: "peel_syls tc (tc_tags tc) si lt []
        = Inr (prov, leftover, si + length (karaoke_durations (tc_tags tc)),
               lt + 10 * sum_list (karaoke_durations (tc_tags tc)))"
    and prov: "map ps_duration prov = map (\<lambda>d. d * 10) (karaoke_durations (tc_tags tc))"
      "map ps_i prov = [si ..< si + length (karaoke_durations (tc_tags tc))]"
      "\<forall>p\<in>set prov. ps_word_i p = w"
      "clocked lt (map ps_times prov)"
      "karaoke_durations leftover = []"
    by auto
  from prov(1) k have ne: "prov \<noteq> []" by auto
  define hid where "hid = fst (hidden_syls font (butlast prov) fx)"
  define fx1 where "fx1 = snd (hidden_syls font (butlast prov) fx)"
  from last_syl_spec [OF lf(2), of font "last prov" leftover fx1] obtain final fx' where
    fin: "last_syl font tc (last prov) leftover fx1 = Inr (final, fx')"
      "finished font final (last prov)" "s_tags final = ps_tags (last prov) @ leftover"
      "text_split (tc_text tc) final"
    by blast
  have h: "list_all2 (\<lambda>s p. finished font s p \<and> hidden s \<and> s_tags s = ps_tags p)
             hid (butlast prov)"
    unfolding hid_def by (rule hidden_syls_spec)
  have "chunk_syls font tc si lt fx
        = Inr (hid @ [final], si + length (karaoke_durations (tc_tags tc)),
               lt + 10 * sum_list (karaoke_durations (tc_tags tc)), fx')"
    using ne fin(1)
    by (simp add: chunk_syls_def peel hid_def fx1_def split_beta)
  moreover have "list_all2 (finished font) (hid @ [final]) (butlast prov @ [last prov])"
    using h fin(2) by (intro list_all2_appendI) (auto elim: list_all2_mono)
  then have "list_all2 (finished font) (hid @ [final]) prov"
    using ne by simp
  moreover have "\<forall>s\<in>set hid. hidden s"
    using h by (auto simp: list_all2_conv_all_nth in_set_conv_nth)
  moreover have "map s_tags hid = map ps_tags (butlast prov)"
    using h by (induction rule: list_all2_induct) auto
  ultimately show ?thesis
    using peel prov ne fin(3,4) by blast
qed

lemma chunk_syls_summary:
  assumes lf: "LF \<notin> set (tc_tags tc)" "LF \<notin> set (tc_text tc)"
    and w: "tc_word_i tc = Some w"
    and k: "karaoke_durations (tc_tags tc) \<noteq> []"
  shows "\<exists>new fx'.
      chunk_syls font tc si lt fx
        = Inr (new, si + length (karaoke_durations (tc_tags tc)),
               lt + 10 * sum_list (karaoke_durations (tc_tags tc)), fx')
    \<and> map s_duration new = map (\<lambda>d. d * 10) (karaoke_durations (tc_tags tc))
    \<and> map s_i new = [si ..< si + length (karaoke_durations (tc_tags tc))]
    \<and> map s_word_i new = replicate (length (karaoke_durations (tc_tags tc))) w
    \<and> clocked lt (map s_times new)"
proof -
  from chunk_syls_spec [OF assms, of si lt font fx] obtain prov hid final fx' where
    c: "chunk_syls font tc si lt fx
        = Inr (hid @ [final], si + length (karaoke_durations (tc_tags tc)),
               lt + 10 * sum_list (karaoke_durations (tc_tags tc)), fx')"
      "list_all2 (finished font) (hid @ [final]) prov"
      "map ps_duration prov = map (\<lambda>d. d * 10) (karaoke_durations (tc_tags tc))"
      "map ps_i prov = [si ..< si + length (karaoke_durations (tc_tags tc))]"
      "\<forall>p\<in>set prov. ps_word_i p = w"
      "clocked lt (map ps_times prov)"
    by blast
  note m = finished_maps [OF c(2)]
  from c(3) have len: "length prov = length (karaoke_durations (tc_tags tc))"
    by (metis length_map)
  have "map ps_word_i prov = replicate (length prov) w"
    using c(5) by (induction prov) auto
  with m c len show ?thesis by (intro exI [of _ "hid @ [final]"] exI [of _ fx']) simp
qed

lemma sound_chunk_word_i:
  "sound_chunk tc \<Longrightarrow> karaoke_durations (tc_tags tc) \<noteq> [] \<Longrightarrow> \<exists>w. tc_word_i tc = Some w"
  by (cases "tc_word_i tc") (auto simp: sound_chunk_def)

lemma syl_tags_match_iff:
  "LF \<notin> set s \<Longrightarrow> syl_tags_match s = None \<longleftrightarrow> karaoke_durations s = []"
  using syl_tags_match_None karaoke_durations_Nil_match by blast

lemma syls_loop_cleared:
  "\<forall>tc\<in>set tcs. sound_chunk tc \<Longrightarrow> \<exists>tc\<in>set tcs. karaoke_durations (tc_tags tc) = [] \<Longrightarrow>
     syls_loop font tcs si lt fx acc = Inr []"
proof (induction tcs arbitrary: si lt fx acc)
  case Nil
  then show ?case by simp
next
  case (Cons tc tcs)
  show ?case
  proof (cases "karaoke_durations (tc_tags tc) = []")
    case True
    then show ?thesis by (simp add: karaoke_durations_Nil_match)
  next
    case False
    from Cons.prems(1) have s: "sound_chunk tc" by simp
    then have lf: "LF \<notin> set (tc_tags tc)" "LF \<notin> set (tc_text tc)"
      by (simp_all add: sound_chunk_def)
    from sound_chunk_word_i [OF s False] obtain w where w: "tc_word_i tc = Some w" ..
    from chunk_syls_summary [OF lf w False, of font si lt fx] obtain new si' lt' fx' where
      c: "chunk_syls font tc si lt fx = Inr (new, si', lt', fx')" by blast
    from Cons.prems False have "\<exists>tc\<in>set tcs. karaoke_durations (tc_tags tc) = []"
      by auto
    with Cons.IH Cons.prems(1)
    have "syls_loop font tcs si' lt' fx' (acc @ new) = Inr []" by simp
    with False lf c show ?thesis by (simp add: syl_tags_match_iff)
  qed
qed

lemma sum_list_times10: "(\<Sum>d\<leftarrow>ds. d * 10) = 10 * sum_list (ds :: int list)"
  by (induction ds) simp_all

lemma map_times_duration: "(\<lambda>(s, e, d). d) \<circ> s_times = s_duration"
  by (simp add: s_times_def fun_eq_iff)

lemma syls_loop_complete:
  "\<forall>tc\<in>set tcs. sound_chunk tc \<Longrightarrow> \<forall>tc\<in>set tcs. karaoke_durations (tc_tags tc) \<noteq> [] \<Longrightarrow>
   \<exists>new. syls_loop font tcs si lt fx acc = Inr (acc @ new)
     \<and> map s_duration new
         = map (\<lambda>d. d * 10) (concat (map (\<lambda>tc. karaoke_durations (tc_tags tc)) tcs))
     \<and> map s_i new
         = [si ..< si + length (concat (map (\<lambda>tc. karaoke_durations (tc_tags tc)) tcs))]
     \<and> map s_word_i new
         = concat (map (\<lambda>tc. replicate (length (karaoke_durations (tc_tags tc)))
                                (the (tc_word_i tc))) tcs)
     \<and> clocked lt (map s_times new)"
proof (induction tcs arbitrary: si lt fx acc)
  case Nil
  then show ?case by simp
next
  case (Cons tc tcs)
  let ?ds = "karaoke_durations (tc_tags tc)"
  let ?rest = "concat (map (\<lambda>tc. karaoke_durations (tc_tags tc)) tcs)"
  from Cons.prems have s: "sound_chunk tc" and k: "?ds \<noteq> []" by simp_all
  from s have lf: "LF \<notin> set (tc_tags tc)" "LF \<notin> set (tc_text tc)"
    by (simp_all add: sound_chunk_def)
  from sound_chunk_word_i [OF s k] obtain w where w: "tc_word_i tc = Some w" ..
  from chunk_syls_summary [OF lf w k, of font si lt fx] obtain new1 fx' where
    c: "chunk_syls font tc si lt fx
          = Inr (new1, si + length ?ds, lt + 10 * sum_list ?ds, fx')"
       "map s_duration new1 = map (\<lambda>d. d * 10) ?ds"
       "map s_i new1 = [si ..< si + length ?ds]"
       "map s_word_i new1 = replicate (length ?ds) w"
       "clocked lt (map s_times new1)"
    by blast
  from Cons.IH [of "si + length ?ds" "lt + 10 * sum_list ?ds" fx' "acc @ new1"] Cons.prems
  obtain new2 where
    r: "syls_loop font tcs (si + length ?ds) (lt + 10 * sum_list ?ds) fx' (acc @ new1)
          = Inr ((acc @ new1) @ new2)"
       "map s_duration new2 = map (\<lambda>d. d * 10) ?rest"
       "map s_i new2 = [si + length ?ds ..< si + length ?ds + length ?rest]"
       "map s_word_i new2
          = concat (map (\<lambda>tc. replicate (length (karaoke_durations (tc_tags tc)))
                                 (the (tc_word_i tc))) tcs)"
       "clocked (lt + 10 * sum_list ?ds) (map s_times new2)"
    by auto
  have "syls_loop font (tc # tcs) si lt fx acc = Inr (acc @ (new1 @ new2))"
    using k lf c(1) r(1) by (simp add: syl_tags_match_iff)
  moreover have "map s_duration (new1 @ new2)
      = map (\<lambda>d. d * 10) (concat (map (\<lambda>tc. karaoke_durations (tc_tags tc)) (tc # tcs)))"
    by (simp add: c(2) r(2))
  moreover have "map s_i (new1 @ new2)
      = [si ..< si + length (concat (map (\<lambda>tc. karaoke_durations (tc_tags tc)) (tc # tcs)))]"
  proof -
    have "[si ..< si + length ?ds] @ [si + length ?ds ..< si + length ?ds + length ?rest]
            = [si ..< si + length ?ds + length ?rest]"
      by (simp add: upt_add_eq_append [symmetric])
    then show ?thesis by (simp add: c(3) r(3) add.assoc)
  qed
  moreover have "map s_word_i (new1 @ new2)
      = concat (map (\<lambda>tc. replicate (length (karaoke_durations (tc_tags tc)))
                             (the (tc_word_i tc))) (tc # tcs))"
    by (simp add: c(4) r(4) w)
  moreover have "clocked lt (map s_times (new1 @ new2))"
  proof -
    have "sum_list (map s_duration new1) = 10 * sum_list ?ds"
      unfolding c(2) by (simp add: sum_list_times10)
    with c(5) r(5) show ?thesis
      by (simp add: clocked_append map_times_duration)
  qed
  ultimately show ?case by blast
qed

lemma tag_run_split: "tag_run s = Some (tag, rest) \<Longrightarrow> s = tag @ rest"
proof (induction s arbitrary: tag rest rule: tag_run.induct)
  case 1
  then show ?case by simp
next
  case (2 c cs)
  from "2.prems" obtain body r where b: "c = CHR ''{''" "brace_body cs = Some (body, r)"
    by (auto split: if_splits option.splits)
  note sp = brace_body_split [OF b(2)]
  show ?case
  proof (cases "tag_run r")
    case None
    with "2.prems" b sp show ?thesis by auto
  next
    case (Some p)
    obtain more r' where p: "p = (more, r')" by (cases p)
    from "2.IH" [OF _ b(2) refl, of more r'] b(1) Some p
    have "r = more @ r'" by simp
    with "2.prems" b sp Some p show ?thesis by auto
  qed
qed

lemma tag_search_split: "tag_search s = Some (pre, tag, rest) \<Longrightarrow> s = pre @ tag @ rest"
proof (induction s arbitrary: pre)
  case Nil
  then show ?case by simp
next
  case (Cons c cs)
  show ?case
  proof (cases "tag_run (c # cs)")
    case None
    with Cons.prems obtain pre' where "tag_search cs = Some (pre', tag, rest)" "pre = c # pre'"
      by (auto split: option.splits)
    with Cons.IH show ?thesis by simp
  next
    case (Some p)
    with Cons.prems have "tag_run (c # cs) = Some (tag, rest)" "pre = []"
      by (auto split: prod.splits)
    then show ?thesis by (simp add: tag_run_split)
  qed
qed

lemma set_remove_close_open: "set (remove_close_open s) \<subseteq> set s"
  by (induction s rule: remove_close_open.induct) auto

lemma set_butlast_tl: "set (butlast (tl s)) \<subseteq> set s"
proof
  fix c
  assume "c \<in> set (butlast (tl s))"
  then have "c \<in> set (tl s)" by (rule in_set_butlastD)
  then show "c \<in> set s" by (cases s) auto
qed

lemma chunk_loop_None:
  "tag_search rest = None \<Longrightarrow>
     chunk_loop tag rest word_i
       = [\<lparr>tc_tags = remove_close_open (butlast (tl tag)), tc_text = rest,
           tc_word_i = Some word_i\<rparr>]"
  by (subst chunk_loop.simps) (simp add: Let_def)

lemma chunk_loop_Some:
  "tag_search rest = Some (pre, tag', rest') \<Longrightarrow>
     chunk_loop tag rest word_i
       = \<lparr>tc_tags = remove_close_open (butlast (tl tag)), tc_text = pre,
           tc_word_i = Some word_i\<rparr>
         # chunk_loop tag' rest' (if ends_in_space pre then word_i + 1 else word_i)"
  by (subst chunk_loop.simps) (simp add: Let_def)

lemma chunk_loop_chars:
  "tc \<in> set (chunk_loop tag rest word_i) \<Longrightarrow>
     set (tc_tags tc) \<subseteq> set tag \<union> set rest \<and> set (tc_text tc) \<subseteq> set rest
     \<and> tc_word_i tc \<noteq> None"
proof (induction "length rest" arbitrary: tag rest word_i rule: less_induct)
  case less
  have tg: "set (remove_close_open (butlast (tl tag))) \<subseteq> set tag"
    using set_remove_close_open set_butlast_tl by (rule order_trans)
  show ?case
  proof (cases "tag_search rest")
    case None
    from less.prems have "tc = \<lparr>tc_tags = remove_close_open (butlast (tl tag)), tc_text = rest,
           tc_word_i = Some word_i\<rparr>"
      by (simp add: chunk_loop_None [OF None])
    with tg show ?thesis
      by auto
  next
    case (Some m)
    obtain pre tag' rest' where m: "m = (pre, tag', rest')" by (cases m)
    note s = Some [unfolded m]
    note sp = tag_search_split [OF s]
    from less.prems
    have "tc = \<lparr>tc_tags = remove_close_open (butlast (tl tag)), tc_text = pre,
                 tc_word_i = Some word_i\<rparr>
          \<or> tc \<in> set (chunk_loop tag' rest' (if ends_in_space pre then word_i + 1 else word_i))"
      unfolding chunk_loop_Some [OF s, of tag word_i] by simp
    then show ?thesis
    proof
      assume "tc = \<lparr>tc_tags = remove_close_open (butlast (tl tag)), tc_text = pre,
                 tc_word_i = Some word_i\<rparr>"
      with tg show ?thesis unfolding sp by auto
    next
      assume a: "tc \<in> set (chunk_loop tag' rest'
                   (if ends_in_space pre then word_i + 1 else word_i))"
      have "length rest' < length rest"
        using s by (rule tag_search_shorter)
      from less.hyps [OF this a] show ?thesis unfolding sp by auto
    qed
  qed
qed

lemma text_chunks_sound:
  assumes "LF \<notin> set raw_text" and "tc \<in> set (text_chunks raw_text)"
  shows "sound_chunk tc"
proof (cases "tag_search raw_text")
  case None
  with assms show ?thesis by (simp add: text_chunks_def sound_chunk_def)
next
  case (Some m)
  obtain pre tag rest where m: "m = (pre, tag, rest)" by (cases m)
  note s = Some [unfolded m]
  note sp = tag_search_split [OF s]
  from assms(2)
  have "tc = \<lparr>tc_tags = [], tc_text = pre, tc_word_i = None\<rparr> \<or> tc \<in> set (chunk_loop tag rest 0)"
    by (auto simp: text_chunks_def s split: if_splits)
  then show ?thesis
  proof
    assume "tc = \<lparr>tc_tags = [], tc_text = pre, tc_word_i = None\<rparr>"
    with assms(1) show ?thesis unfolding sp by (auto simp: sound_chunk_def)
  next
    assume "tc \<in> set (chunk_loop tag rest 0)"
    from chunk_loop_chars [OF this] assms(1) show ?thesis
      unfolding sp by (auto simp: sound_chunk_def)
  qed
qed

lemma ends_in_space_iff:
  assumes "LF \<notin> set t"
  shows "ends_in_space t \<longleftrightarrow> t \<noteq> [] \<and> is_space (last t)"
proof -
  have "set (rstrip_space t) \<subseteq> set t"
    by (auto simp: rstrip_space_def dest!: set_dropWhileD)
  with assms have "LF \<notin> set (rstrip_space t)" by auto
  moreover have "trailing_space t \<noteq> [] \<longleftrightarrow> t \<noteq> [] \<and> is_space (last t)"
    by (cases t rule: rev_cases) (auto simp: trailing_space_def)
  ultimately show ?thesis by (simp add: ends_in_space_def)
qed

lemma chunk_loop_word_i:
  "LF \<notin> set rest \<Longrightarrow>
     map tc_word_i (chunk_loop tag rest word_i)
       = map Some (running_word_i word_i (chunk_loop tag rest word_i))"
proof (induction "length rest" arbitrary: tag rest word_i rule: less_induct)
  case less
  show ?case
  proof (cases "tag_search rest")
    case None
    then show ?thesis by (simp add: chunk_loop_None)
  next
    case (Some m)
    obtain pre tag' rest' where m: "m = (pre, tag', rest')" by (cases m)
    note s = Some [unfolded m]
    note sp = tag_search_split [OF s]
    from less.prems have lf: "LF \<notin> set pre" "LF \<notin> set rest'"
      unfolding sp by auto
    have "length rest' < length rest"
      using s by (rule tag_search_shorter)
    from less.hyps [OF this lf(2)] show ?thesis
      by (simp add: chunk_loop_Some [OF s] ends_in_space_iff [OF lf(1)])
  qed
qed

lemma words_walk_placed:
  "list_all2 placed_word (words_walk al lp space_width style_spacing cur_x words) words"
  by (induction words arbitrary: cur_x) (auto simp: placed_word_def Let_def)

lemma words_stack_loop_placed:
  "list_all2 placed_word (words_stack_loop al meta lp max_width cur_y words) words"
  by (induction words arbitrary: cur_y) (auto simp: placed_word_def Let_def)

lemma position_words_placed:
  "list_all2 placed_word (position_words meta style lp space_width style_spacing words) words"
  by (simp add: position_words_def words_stack_def words_walk_placed words_stack_loop_placed)

lemma syls_walk_placed:
  "list_all2 placed_syl (syls_walk al lp space_width style_spacing cur_x syls) syls"
  by (induction syls arbitrary: cur_x) (auto simp: placed_syl_def Let_def)

lemma syls_stack_loop_placed:
  "list_all2 placed_syl (syls_stack_loop al lp max_width cur_y syls) syls"
  by (induction syls arbitrary: cur_y) (auto simp: placed_syl_def Let_def)

lemma position_syls_placed:
  "position_syls vertical_kanji meta style lp width height space_width style_spacing syls
     = (lp', width', height', syls') \<Longrightarrow> list_all2 placed_syl syls' syls"
  by (auto simp: position_syls_def syls_stack_def Let_def syls_walk_placed
        syls_stack_loop_placed split: if_splits)

lemma chars_walk_placed:
  "list_all2 placed_char (chars_walk al lp style_spacing cur_x chars) chars"
  by (induction chars arbitrary: cur_x) (auto simp: placed_char_def Let_def)

lemma chars_stack_loop_placed:
  "list_all2 placed_char (chars_stack_loop al meta lp max_width cur_y chars) chars"
  by (induction chars arbitrary: cur_y) (auto simp: placed_char_def Let_def)

lemma position_chars_placed:
  "list_all2 placed_char (position_chars meta style lp style_spacing chars) chars"
  by (simp add: position_chars_def chars_stack_def chars_walk_placed chars_stack_loop_placed)

lemma placed_syl_maps:
  assumes "list_all2 placed_syl syls' syls"
  shows "length syls' = length syls" and "map s_i syls' = map s_i syls"
    and "map s_word_i syls' = map s_word_i syls" and "map s_times syls' = map s_times syls"
    and "map s_duration syls' = map s_duration syls" and "map s_text syls' = map s_text syls"
    and "map s_tags syls' = map s_tags syls"
    and "map s_prespace syls' = map s_prespace syls"
    and "map s_postspace syls' = map s_postspace syls"
  using assms
  by (induction rule: list_all2_induct) (auto simp: placed_syl_def s_times_def)

lemma place_syls_same:
  "place_syls vertical_kanji meta font style lp width height syls = (lp', width', height', syls')
     \<Longrightarrow> same_syls syls' syls"
  by (auto simp: place_syls_def Let_def same_syls_def dest: position_syls_placed
        split: if_splits)

lemma extend_line_same_syls:
  assumes "line_syls font (l_raw_text line) = Inr syls"
  shows "\<exists>line'. extend_line vertical_kanji meta font style line = Inr line'
           \<and> same_syls (l_syls line') syls"
  using assms
  by (auto simp: extend_line_def Let_def split: prod.splits dest: place_syls_same)

lemma same_syls_maps:
  assumes "same_syls syls' syls"
  shows "length syls' = length syls" and "map s_i syls' = map s_i syls"
    and "map s_word_i syls' = map s_word_i syls" and "map s_times syls' = map s_times syls"
    and "map s_duration syls' = map s_duration syls" and "map s_text syls' = map s_text syls"
    and "map s_tags syls' = map s_tags syls"
    and "map s_prespace syls' = map s_prespace syls"
    and "map s_postspace syls' = map s_postspace syls"
  using assms placed_syl_maps [of syls' syls] by (auto simp: same_syls_def)

lemma chunk_loop_not_Nil: "chunk_loop tag rest word_i \<noteq> []"
  by (cases "tag_search rest") (auto simp: chunk_loop_None chunk_loop_Some)

lemma text_chunks_not_Nil: "text_chunks raw_text \<noteq> []"
  by (auto simp: text_chunks_def chunk_loop_not_Nil split: option.splits)

lemma line_syls_result:
  assumes "LF \<notin> set raw_text"
  shows "\<exists>syls. line_syls font raw_text = Inr syls
    \<and> (if \<exists>tc\<in>set (text_chunks raw_text). karaoke_durations (tc_tags tc) = []
        then syls = []
        else map s_duration syls = map (\<lambda>d. d * 10) (line_durations raw_text)
           \<and> map s_i syls = [0 ..< length (line_durations raw_text)]
           \<and> map s_word_i syls
               = concat (map (\<lambda>tc. replicate (length (karaoke_durations (tc_tags tc)))
                                      (the (tc_word_i tc))) (text_chunks raw_text))
           \<and> clocked 0 (map s_times syls))"
proof -
  have s: "\<forall>tc\<in>set (text_chunks raw_text). sound_chunk tc"
    using assms by (auto intro: text_chunks_sound)
  show ?thesis
  proof (cases "\<exists>tc\<in>set (text_chunks raw_text). karaoke_durations (tc_tags tc) = []")
    case True
    from syls_loop_cleared [OF s True] True show ?thesis
      by (simp add: line_syls_def)
  next
    case False
    then have "\<forall>tc\<in>set (text_chunks raw_text). karaoke_durations (tc_tags tc) \<noteq> []"
      by simp
    from syls_loop_complete [OF s this, of font 0 0 "[]" "[]"] False show ?thesis
      by (simp add: line_syls_def line_durations_def)
  qed
qed

lemma same_syls_Nil: "same_syls syls' [] \<Longrightarrow> syls' = []"
  by (auto simp: same_syls_def)

lemma process_line_resolved:
  assumes "styles (l_style line) = Some style"
  shows "process_line vertical_kanji meta styles font_of line
           = extend_line vertical_kanji meta (font_of style) style
               (line\<lparr>l_styleref := Some style,
                      l_duration := l_end_time line - l_start_time line,
                      l_text := strip_tags (l_raw_text line)\<rparr>)"
  using assms by (simp add: process_line_def Let_def)

lemma process_line_syls:
  assumes "styles (l_style line) = Some style" and "LF \<notin> set (l_raw_text line)"
  shows "\<exists>line' syls. process_line vertical_kanji meta styles font_of line = Inr line'
    \<and> same_syls (l_syls line') syls
    \<and> (if \<exists>tc\<in>set (text_chunks (l_raw_text line)). karaoke_durations (tc_tags tc) = []
        then syls = []
        else map s_duration syls = map (\<lambda>d. d * 10) (line_durations (l_raw_text line))
           \<and> map s_i syls = [0 ..< length (line_durations (l_raw_text line))]
           \<and> map s_word_i syls
               = concat (map (\<lambda>tc. replicate (length (karaoke_durations (tc_tags tc)))
                                      (the (tc_word_i tc))) (text_chunks (l_raw_text line)))
           \<and> clocked 0 (map s_times syls))"
proof -
  let ?line = "line\<lparr>l_styleref := Some style,
                      l_duration := l_end_time line - l_start_time line,
                      l_text := strip_tags (l_raw_text line)\<rparr>"
  from line_syls_result [OF assms(2), of "font_of style"] obtain syls where
    s: "line_syls (font_of style) (l_raw_text line) = Inr syls"
    and r: "if \<exists>tc\<in>set (text_chunks (l_raw_text line)). karaoke_durations (tc_tags tc) = []
        then syls = []
        else map s_duration syls = map (\<lambda>d. d * 10) (line_durations (l_raw_text line))
           \<and> map s_i syls = [0 ..< length (line_durations (l_raw_text line))]
           \<and> map s_word_i syls
               = concat (map (\<lambda>tc. replicate (length (karaoke_durations (tc_tags tc)))
                                      (the (tc_word_i tc))) (text_chunks (l_raw_text line)))
           \<and> clocked 0 (map s_times syls)"
    by blast
  have "line_syls (font_of style) (l_raw_text ?line) = Inr syls"
    using s by simp
  from extend_line_same_syls [OF this, of vertical_kanji meta style]
  obtain line' where
    "extend_line vertical_kanji meta (font_of style) style ?line = Inr line'"
    "same_syls (l_syls line') syls"
    by blast
  with r show ?thesis
    unfolding process_line_resolved [where styles = styles and line = line, OF assms(1)] by blast
qed

lemma clocked_nth:
  "clocked t xs \<Longrightarrow>
     (xs \<noteq> [] \<longrightarrow> fst (hd xs) = t)
     \<and> (\<forall>k < length xs. fst (snd (xs ! k)) = fst (xs ! k) + snd (snd (xs ! k)))
     \<and> (\<forall>k. Suc k < length xs \<longrightarrow> fst (xs ! Suc k) = fst (snd (xs ! k)))"
proof (induction xs arbitrary: t)
  case Nil
  then show ?case by simp
next
  case (Cons x xs)
  obtain s e d where x: "x = (s, e, d)" by (cases x)
  from Cons.prems x have c: "s = t" "e = s + d" "clocked e xs" by auto
  note ih = Cons.IH [OF c(3)]
  have "\<forall>k < length (x # xs). fst (snd ((x # xs) ! k)) = fst ((x # xs) ! k) + snd (snd ((x # xs) ! k))"
    using ih c x by (auto simp: nth_Cons split: nat.splits)
  moreover have "\<forall>k. Suc k < length (x # xs) \<longrightarrow> fst ((x # xs) ! Suc k) = fst (snd ((x # xs) ! k))"
  proof (intro allI impI)
    fix k assume k: "Suc k < length (x # xs)"
    show "fst ((x # xs) ! Suc k) = fst (snd ((x # xs) ! k))"
    proof (cases k)
      case 0
      with k ih x show ?thesis by (cases xs) auto
    next
      case (Suc j)
      with k ih show ?thesis by auto
    qed
  qed
  ultimately show ?case using c x by simp
qed

lemma syls_clocked:
  assumes "clocked t (map s_times syls)"
  shows "syls \<noteq> [] \<longrightarrow> s_start_time (hd syls) = t"
    and "\<forall>k < length syls. s_end_time (syls ! k) = s_start_time (syls ! k) + s_duration (syls ! k)"
    and "\<forall>k. Suc k < length syls \<longrightarrow> s_start_time (syls ! Suc k) = s_end_time (syls ! k)"
  using clocked_nth [OF assms]
  by (auto simp: s_times_def hd_map)

lemma karaoke_example_chunks:
  "text_chunks karaoke_example =
     [\<lparr>tc_tags = backslash # ''k50'', tc_text = ''Hel'', tc_word_i = Some 0\<rparr>,
      \<lparr>tc_tags = backslash # ''k30'', tc_text = ''lo '', tc_word_i = Some 0\<rparr>,
      \<lparr>tc_tags = backslash # ''k40'', tc_text = ''world'', tc_word_i = Some 1\<rparr>]"
  by code_simp

lemma karaoke_example_durations:
  "map (\<lambda>tc. karaoke_durations (tc_tags tc)) (text_chunks karaoke_example) = [[50], [30], [40]]"
  unfolding karaoke_example_chunks by code_simp

lemma karaoke_example_LF: "LF \<notin> set karaoke_example"
  by code_simp

lemma leading_text_example_chunks:
  "text_chunks leading_text_example =
     [\<lparr>tc_tags = [], tc_text = ''Hi '', tc_word_i = None\<rparr>,
      \<lparr>tc_tags = backslash # ''b1'', tc_text = ''there'', tc_word_i = Some 0\<rparr>]"
  by code_simp

lemma karaoke_example_complete:
  "\<not> (\<exists>tc\<in>set (text_chunks karaoke_example). karaoke_durations (tc_tags tc) = [])"
proof
  assume "\<exists>tc\<in>set (text_chunks karaoke_example). karaoke_durations (tc_tags tc) = []"
  then have "[] \<in> set (map (\<lambda>tc. karaoke_durations (tc_tags tc)) (text_chunks karaoke_example))"
    by force
  then show False unfolding karaoke_example_durations by simp
qed

lemma karaoke_example_line_durations: "line_durations karaoke_example = [50, 30, 40]"
  by (simp add: line_durations_def karaoke_example_durations)

lemma example_line_fields:
  "l_raw_text (example_line raw) = raw"
  "example_styles al (l_style (example_line raw)) = Some (example_style al)"
  by (simp_all add: example_line_def example_styles_def)

lemma karaoke_example_count:
  "(\<Sum>tc\<leftarrow>text_chunks karaoke_example. length (karaoke_durations (tc_tags tc))) = 3"
proof -
  have "(\<Sum>tc\<leftarrow>text_chunks karaoke_example. length (karaoke_durations (tc_tags tc)))
          = sum_list (map length (map (\<lambda>tc. karaoke_durations (tc_tags tc))
                                      (text_chunks karaoke_example)))"
    by (simp add: comp_def)
  also have "\<dots> = 3"
    unfolding karaoke_example_durations by simp
  finally show ?thesis .
qed

lemma process_line_clock:
  assumes "styles (l_style line) = Some style" and "LF \<notin> set (l_raw_text line)"
    and "\<forall>tc\<in>set (text_chunks (l_raw_text line)). karaoke_durations (tc_tags tc) \<noteq> []"
  shows "\<exists>line'. process_line vertical_kanji meta styles font_of line = Inr line'
    \<and> map s_duration (l_syls line') = map (\<lambda>d. d * 10) (line_durations (l_raw_text line))
    \<and> map s_word_i (l_syls line')
        = concat (map (\<lambda>tc. replicate (length (karaoke_durations (tc_tags tc)))
                               (the (tc_word_i tc))) (text_chunks (l_raw_text line)))
    \<and> clocked 0 (map s_times (l_syls line'))
    \<and> l_syls line' \<noteq> []"
proof -
  from assms(3)
  have c: "\<not> (\<exists>tc\<in>set (text_chunks (l_raw_text line)). karaoke_durations (tc_tags tc) = [])"
    by simp
  from process_line_syls [where styles = styles and line = line, OF assms(1,2),
      of vertical_kanji meta font_of]
  obtain line' syls where
    p: "process_line vertical_kanji meta styles font_of line = Inr line'"
    and same: "same_syls (l_syls line') syls"
    and r: "map s_duration syls = map (\<lambda>d. d * 10) (line_durations (l_raw_text line))"
      "map s_word_i syls
         = concat (map (\<lambda>tc. replicate (length (karaoke_durations (tc_tags tc)))
                                (the (tc_word_i tc))) (text_chunks (l_raw_text line)))"
      "clocked 0 (map s_times syls)"
    unfolding if_not_P [OF c] by blast
  note m = same_syls_maps [OF same]
  obtain tc tcs where t: "text_chunks (l_raw_text line) = tc # tcs"
    using text_chunks_not_Nil [of "l_raw_text line"] by (cases "text_chunks (l_raw_text line)") auto
  with assms(3) have "karaoke_durations (tc_tags tc) \<noteq> []" by simp
  then have "line_durations (l_raw_text line) \<noteq> []"
    by (simp add: line_durations_def t)
  with r(1) have "syls \<noteq> []" by auto
  with m(1) have "l_syls line' \<noteq> []" by auto
  with p r m show ?thesis by simp
qed



lemma text_chunks_structure:
  assumes "LF \<notin> set raw_text"
  shows "\<exists>lead run. text_chunks raw_text = lead @ run
    \<and> (lead = [] \<or> (\<exists>t. lead = [\<lparr>tc_tags = [], tc_text = t, tc_word_i = None\<rparr>]))
    \<and> map tc_word_i run = map Some (running_word_i 0 run)"
proof (cases "tag_search raw_text")
  case None
  then have "text_chunks raw_text
      = [\<lparr>tc_tags = [], tc_text = raw_text, tc_word_i = None\<rparr>] @ []"
    by (simp add: text_chunks_def)
  then show ?thesis by (intro exI conjI) (assumption, auto)
next
  case (Some m)
  obtain pre tag rest where m: "m = (pre, tag, rest)" by (cases m)
  note s = Some [unfolded m]
  have "LF \<notin> set rest"
    using assms unfolding tag_search_split [OF s] by simp
  then have r: "map tc_word_i (chunk_loop tag rest 0)
      = map Some (running_word_i 0 (chunk_loop tag rest 0))"
    by (rule chunk_loop_word_i)
  have "text_chunks raw_text
      = (if pre \<noteq> [] then [\<lparr>tc_tags = [], tc_text = pre, tc_word_i = None\<rparr>] else [])
        @ chunk_loop tag rest 0"
    by (simp add: text_chunks_def s)
  with r show ?thesis by (intro exI conjI) (assumption, auto)
qed

lemma karaoke_example_word_i:
  "concat (map (\<lambda>tc. replicate (length (karaoke_durations (tc_tags tc))) (the (tc_word_i tc)))
             (text_chunks karaoke_example)) = [0, 0, 1]"
  unfolding karaoke_example_chunks by code_simp

section \<open>Syllables: all or nothing, the running clock, hidden syllables, word indices\<close>

text \<open>
  C1. For a line with a resolved style (its raw text, as the parser's \<open>(.+?)$\<close> leaves
  it, holds no line feed), the extended computation succeeds and: if some chunk's tag
  string holds no karaoke duration tag, \<open>line.syls\<close> is empty; otherwise it has exactly
  one syllable for every karaoke duration tag of every chunk, numbered 0, 1, 2, ...
  without a gap. It is never a proper prefix.
\<close>

theorem C1_syls_all_or_nothing:
  assumes "styles (l_style line) = Some style" and "LF \<notin> set (l_raw_text line)"
  shows "\<exists>line'. process_line vertical_kanji meta styles font_of line = Inr line'
    \<and> (if \<exists>tc\<in>set (text_chunks (l_raw_text line)). karaoke_durations (tc_tags tc) = []
        then l_syls line' = []
        else length (l_syls line')
               = (\<Sum>tc\<leftarrow>text_chunks (l_raw_text line). length (karaoke_durations (tc_tags tc)))
           \<and> map s_i (l_syls line') = [0 ..< length (l_syls line')])"
proof -
  from process_line_syls [where styles = styles and line = line, OF assms,
      of vertical_kanji meta font_of]
  obtain line' syls where
    p: "process_line vertical_kanji meta styles font_of line = Inr line'"
    and same: "same_syls (l_syls line') syls"
    and r: "if \<exists>tc\<in>set (text_chunks (l_raw_text line)). karaoke_durations (tc_tags tc) = []
        then syls = []
        else map s_duration syls = map (\<lambda>d. d * 10) (line_durations (l_raw_text line))
           \<and> map s_i syls = [0 ..< length (line_durations (l_raw_text line))]
           \<and> map s_word_i syls
               = concat (map (\<lambda>tc. replicate (length (karaoke_durations (tc_tags tc)))
                                      (the (tc_word_i tc))) (text_chunks (l_raw_text line)))
           \<and> clocked 0 (map s_times syls)"
    by blast
  note m = same_syls_maps [OF same]
  show ?thesis
  proof (cases "\<exists>tc\<in>set (text_chunks (l_raw_text line)). karaoke_durations (tc_tags tc) = []")
    case True
    with r have "syls = []" by simp
    with same have "l_syls line' = []" by (simp add: same_syls_Nil)
    with p True show ?thesis by simp
  next
    case False
    with r have d: "map s_duration syls = map (\<lambda>d. d * 10) (line_durations (l_raw_text line))"
      and i: "map s_i syls = [0 ..< length (line_durations (l_raw_text line))]"
      by simp_all
    from d have "length syls = length (line_durations (l_raw_text line))"
      by (metis length_map)
    then have len: "length (l_syls line') = length (line_durations (l_raw_text line))"
      using m(1) by simp
    have "length (line_durations (l_raw_text line))
            = (\<Sum>tc\<leftarrow>text_chunks (l_raw_text line). length (karaoke_durations (tc_tags tc)))"
      by (simp add: line_durations_def length_concat comp_def)
    with len i m(2) p False show ?thesis by simp
  qed
qed

theorem C1_syls_all_or_nothing_witness:
  "example_styles 2 (l_style (example_line karaoke_example)) = Some (example_style 2)
   \<and> LF \<notin> set (l_raw_text (example_line karaoke_example))
   \<and> (\<exists>line'. process_line True example_meta (example_styles 2) (\<lambda>_. example_font)
                  (example_line karaoke_example) = Inr line'
        \<and> length (l_syls line') = 3 \<and> map s_i (l_syls line') = [0, 1, 2])"
proof -
  have a: "example_styles 2 (l_style (example_line karaoke_example)) = Some (example_style 2)"
    by (rule example_line_fields)
  have b: "LF \<notin> set (l_raw_text (example_line karaoke_example))"
    by (simp add: example_line_fields karaoke_example_LF)
  have "\<exists>line'. process_line True example_meta (example_styles 2) (\<lambda>_. example_font)
                  (example_line karaoke_example) = Inr line'
        \<and> length (l_syls line') = 3
        \<and> map s_i (l_syls line') = [0 ..< length (l_syls line')]"
    using C1_syls_all_or_nothing [where styles = "example_styles 2"
      and line = "example_line karaoke_example" and style = "example_style 2", OF a b,
      of True example_meta "\<lambda>_. example_font"]
    unfolding example_line_fields if_not_P [OF karaoke_example_complete] karaoke_example_count .
  then obtain line' where l:
    "process_line True example_meta (example_styles 2) (\<lambda>_. example_font)
       (example_line karaoke_example) = Inr line'"
    "length (l_syls line') = 3" "map s_i (l_syls line') = [0 ..< length (l_syls line')]"
    by (elim exE conjE)
  from l(2,3) have "map s_i (l_syls line') = [0, 1, 2]"
    by (simp add: upt_rec)
  with l(1,2) have "\<exists>line'. process_line True example_meta (example_styles 2) (\<lambda>_. example_font)
                  (example_line karaoke_example) = Inr line'
        \<and> length (l_syls line') = 3 \<and> map s_i (l_syls line') = [0, 1, 2]"
    by (intro exI [of _ line'] conjI)
  with a b show ?thesis by (intro conjI)
qed

text \<open>
  C2. For a line in which every chunk has a karaoke duration tag: the syllables exist,
  the first starts at 0, the \<open>k\<close>-th has the duration of the \<open>k\<close>-th karaoke tag times 10
  and ends at its start plus that, each later one starts where the previous one ended,
  and the durations sum to 10 times the sum of the tags' values. Nothing depends on the
  line's own start and end time.
\<close>

theorem C2_running_clock:
  assumes "styles (l_style line) = Some style" and "LF \<notin> set (l_raw_text line)"
    and "\<forall>tc\<in>set (text_chunks (l_raw_text line)). karaoke_durations (tc_tags tc) \<noteq> []"
  shows "\<exists>line'. process_line vertical_kanji meta styles font_of line = Inr line'
    \<and> l_syls line' \<noteq> []
    \<and> s_start_time (hd (l_syls line')) = 0
    \<and> length (l_syls line') = length (line_durations (l_raw_text line))
    \<and> (\<forall>k < length (l_syls line').
          s_duration (l_syls line' ! k) = line_durations (l_raw_text line) ! k * 10
          \<and> s_end_time (l_syls line' ! k)
               = s_start_time (l_syls line' ! k) + line_durations (l_raw_text line) ! k * 10)
    \<and> (\<forall>k. Suc k < length (l_syls line') \<longrightarrow>
          s_start_time (l_syls line' ! Suc k) = s_end_time (l_syls line' ! k))
    \<and> sum_list (map s_duration (l_syls line')) = 10 * sum_list (line_durations (l_raw_text line))"
proof -
  from process_line_clock [where styles = styles and line = line, OF assms,
      of vertical_kanji meta font_of]
  obtain line' where
    p: "process_line vertical_kanji meta styles font_of line = Inr line'"
    and d: "map s_duration (l_syls line') = map (\<lambda>d. d * 10) (line_durations (l_raw_text line))"
    and c: "clocked 0 (map s_times (l_syls line'))"
    and ne: "l_syls line' \<noteq> []"
    by blast
  note t = syls_clocked [OF c]
  from d have len: "length (l_syls line') = length (line_durations (l_raw_text line))"
    by (metis length_map)
  have dur: "\<forall>k < length (l_syls line').
      s_duration (l_syls line' ! k) = line_durations (l_raw_text line) ! k * 10"
  proof (intro allI impI)
    fix k assume k: "k < length (l_syls line')"
    then have "s_duration (l_syls line' ! k) = map s_duration (l_syls line') ! k"
      by simp
    also have "\<dots> = line_durations (l_raw_text line) ! k * 10"
      unfolding d using k len by simp
    finally show "s_duration (l_syls line' ! k) = line_durations (l_raw_text line) ! k * 10" .
  qed
  have "sum_list (map s_duration (l_syls line')) = 10 * sum_list (line_durations (l_raw_text line))"
    unfolding d by (rule sum_list_times10)
  with p ne t len dur show ?thesis
    by (intro exI [of _ line']) simp
qed

theorem C2_running_clock_witness:
  "example_styles 2 (l_style (example_line karaoke_example)) = Some (example_style 2)
   \<and> LF \<notin> set (l_raw_text (example_line karaoke_example))
   \<and> list_all (\<lambda>tc. karaoke_durations (tc_tags tc) \<noteq> [])
        (text_chunks (l_raw_text (example_line karaoke_example)))
   \<and> (\<exists>line'. process_line True example_meta (example_styles 2) (\<lambda>_. example_font)
                  (example_line karaoke_example) = Inr line'
        \<and> s_start_time (hd (l_syls line')) = 0
        \<and> length (l_syls line') = 3
        \<and> sum_list (map s_duration (l_syls line')) = 1200)"
proof -
  have a: "example_styles 2 (l_style (example_line karaoke_example)) = Some (example_style 2)"
    by (rule example_line_fields)
  have b: "LF \<notin> set (l_raw_text (example_line karaoke_example))"
    by (simp add: example_line_fields karaoke_example_LF)
  have c: "\<forall>tc\<in>set (text_chunks (l_raw_text (example_line karaoke_example))).
             karaoke_durations (tc_tags tc) \<noteq> []"
    using karaoke_example_complete by (simp add: example_line_fields)
  have "\<exists>line'. process_line True example_meta (example_styles 2) (\<lambda>_. example_font)
                  (example_line karaoke_example) = Inr line'
        \<and> s_start_time (hd (l_syls line')) = 0
        \<and> length (l_syls line') = 3
        \<and> sum_list (map s_duration (l_syls line')) = 1200"
    using C2_running_clock [where styles = "example_styles 2"
      and line = "example_line karaoke_example" and style = "example_style 2", OF a b c,
      of True example_meta "\<lambda>_. example_font"]
    unfolding example_line_fields karaoke_example_line_durations by auto
  with a b c show ?thesis by (simp add: list_all_iff)
qed



text \<open>
  C4, as stated: every chunk carries a word index that starts at 0 and goes up after
  each chunk whose text ends in whitespace, a leading chunk included. This fails on
  \<open>Hi {\b1}there\<close>: the leading chunk \<open>Hi \<close> has no \<open>"word_i"\<close> key, and the chunk of
  \<open>{\b1}\<close> has word index 0, not 1.
\<close>

theorem C4_counterexample:
  "map tc_word_i (text_chunks leading_text_example)
     \<noteq> map Some (running_word_i 0 (text_chunks leading_text_example))"
  unfolding leading_text_example_chunks by simp

text \<open>
  C4, amended: the chunks of a line are at most one leading chunk (the text before the
  first tag run, or the whole text of a line without tags), which has empty tags and no
  word index and does not advance the counter, followed by the chunks of the tag runs,
  whose word index starts at 0 and goes up by one exactly after each of them whose text
  ends in whitespace. Either the line has no syllables, or there is no leading chunk and
  every syllable's \<open>word_i\<close> is the word index of its chunk. For the raw text
  \<open>{\k50}Hel{\k30}lo {\k40}world\<close> the three syllables have \<open>word_i\<close> 0, 0 and 1.
\<close>

theorem C4_word_index:
  assumes "styles (l_style line) = Some style" and "LF \<notin> set (l_raw_text line)"
  shows "\<exists>lead run line'.
      text_chunks (l_raw_text line) = lead @ run
    \<and> (lead = [] \<or> (\<exists>t. lead = [\<lparr>tc_tags = [], tc_text = t, tc_word_i = None\<rparr>]))
    \<and> map tc_word_i run = map Some (running_word_i 0 run)
    \<and> process_line vertical_kanji meta styles font_of line = Inr line'
    \<and> (l_syls line' = []
        \<or> lead = []
          \<and> map s_word_i (l_syls line')
              = concat (map (\<lambda>tc. replicate (length (karaoke_durations (tc_tags tc)))
                                     (the (tc_word_i tc))) run))
    \<and> (l_raw_text line = karaoke_example \<longrightarrow> map s_word_i (l_syls line') = [0, 0, 1])"
proof -
  from text_chunks_structure [OF assms(2)] obtain lead run where
    t: "text_chunks (l_raw_text line) = lead @ run"
      "lead = [] \<or> (\<exists>t. lead = [\<lparr>tc_tags = [], tc_text = t, tc_word_i = None\<rparr>])"
      "map tc_word_i run = map Some (running_word_i 0 run)"
    by blast
  from process_line_syls [where styles = styles and line = line, OF assms,
      of vertical_kanji meta font_of]
  obtain line' syls where
    p: "process_line vertical_kanji meta styles font_of line = Inr line'"
    and same: "same_syls (l_syls line') syls"
    and r: "if \<exists>tc\<in>set (text_chunks (l_raw_text line)). karaoke_durations (tc_tags tc) = []
        then syls = []
        else map s_duration syls = map (\<lambda>d. d * 10) (line_durations (l_raw_text line))
           \<and> map s_i syls = [0 ..< length (line_durations (l_raw_text line))]
           \<and> map s_word_i syls
               = concat (map (\<lambda>tc. replicate (length (karaoke_durations (tc_tags tc)))
                                      (the (tc_word_i tc))) (text_chunks (l_raw_text line)))
           \<and> clocked 0 (map s_times syls)"
    by blast
  note m = same_syls_maps [OF same]
  have w: "l_syls line' = []
        \<or> lead = []
          \<and> map s_word_i (l_syls line')
              = concat (map (\<lambda>tc. replicate (length (karaoke_durations (tc_tags tc)))
                                     (the (tc_word_i tc))) run)"
  proof (cases "\<exists>tc\<in>set (text_chunks (l_raw_text line)). karaoke_durations (tc_tags tc) = []")
    case True
    with r have "syls = []" by simp
    with same show ?thesis by (simp add: same_syls_Nil)
  next
    case False
    with t(1,2) have "lead = []" by auto
    with False r m(3) t(1) show ?thesis by simp
  qed
  have e: "l_raw_text line = karaoke_example \<longrightarrow> map s_word_i (l_syls line') = [0, 0, 1]"
  proof
    assume x: "l_raw_text line = karaoke_example"
    from r [unfolded x if_not_P [OF karaoke_example_complete]] m(3)
    show "map s_word_i (l_syls line') = [0, 0, 1]"
      by (simp add: karaoke_example_word_i)
  qed
  from t p w e show ?thesis
    by (intro exI [of _ lead] exI [of _ run] exI [of _ line'] conjI)
qed

theorem C4_word_index_witness:
  "example_styles 2 (l_style (example_line karaoke_example)) = Some (example_style 2)
   \<and> LF \<notin> set (l_raw_text (example_line karaoke_example))
   \<and> map tc_word_i (text_chunks karaoke_example) = [Some 0, Some 0, Some 1]
   \<and> (\<exists>line'. process_line True example_meta (example_styles 2) (\<lambda>_. example_font)
                  (example_line karaoke_example) = Inr line'
        \<and> map s_word_i (l_syls line') = [0, 0, 1])"
proof -
  have a: "example_styles 2 (l_style (example_line karaoke_example)) = Some (example_style 2)"
    by (rule example_line_fields)
  have b: "LF \<notin> set (l_raw_text (example_line karaoke_example))"
    by (simp add: example_line_fields karaoke_example_LF)
  have "\<exists>line'. process_line True example_meta (example_styles 2) (\<lambda>_. example_font)
                  (example_line karaoke_example) = Inr line'
        \<and> map s_word_i (l_syls line') = [0, 0, 1]"
    using C4_word_index [where styles = "example_styles 2"
      and line = "example_line karaoke_example" and style = "example_style 2", OF a b,
      of True example_meta "\<lambda>_. example_font"]
    unfolding example_line_fields
    by (elim exE conjE) (intro exI conjI, assumption, simp)
  moreover have "map tc_word_i (text_chunks karaoke_example) = [Some 0, Some 0, Some 1]"
    by (simp add: karaoke_example_chunks)
  ultimately show ?thesis using a b by (intro conjI)
qed

section \<open>Which geometry fields are set\<close>

lemma make_words_unplaced: "\<forall>w\<in>set (make_words font line wi found). unplaced_word w"
  by (induction found arbitrary: wi) (auto simp: unplaced_word_def)

lemma el_chars_unplaced:
  "\<forall>c\<in>set (el_chars font char_index word_i syl_i st et du el_text). unplaced_char c"
  by (auto simp: el_chars_def unplaced_char_def)

lemma syl_chars_unplaced: "\<forall>c\<in>set (syl_chars font char_index syls). unplaced_char c"
  using el_chars_unplaced
  by (induction syls arbitrary: char_index) (auto simp: Let_def)

lemma word_chars_unplaced: "\<forall>c\<in>set (word_chars font char_index words). unplaced_char c"
  using el_chars_unplaced
  by (induction words arbitrary: char_index) (auto simp: Let_def)

lemma finish_syl_unplaced: "unplaced_syl (finish_syl font p tags fx prespace text postspace)"
  by (simp add: unplaced_syl_def finish_syl_def)

lemma hidden_syls_unplaced: "\<forall>s\<in>set (fst (hidden_syls font ps fx)). unplaced_syl s"
  by (induction ps arbitrary: fx) (auto simp: Let_def split_beta finish_syl_unplaced)

lemma last_syl_unplaced:
  "last_syl font tc p posttags fx = Inr (s, fx') \<Longrightarrow> unplaced_syl s"
  by (auto simp: last_syl_def Let_def finish_syl_unplaced split: if_splits option.splits)

lemma chunk_syls_unplaced:
  "chunk_syls font tc si lt fx = Inr (new, r) \<Longrightarrow> \<forall>s\<in>set new. unplaced_syl s"
  using hidden_syls_unplaced
  by (auto simp: chunk_syls_def split_beta split: sum.splits if_splits dest: last_syl_unplaced)

lemma syls_loop_unplaced:
  "syls_loop font tcs si lt fx acc = Inr syls \<Longrightarrow> \<forall>s\<in>set acc. unplaced_syl s \<Longrightarrow>
     \<forall>s\<in>set syls. unplaced_syl s"
proof (induction tcs arbitrary: si lt fx acc)
  case Nil
  then show ?case by simp
next
  case (Cons tc tcs)
  show ?case
  proof (cases "syl_tags_match (tc_tags tc) = None")
    case True
    with Cons.prems show ?thesis by simp
  next
    case False
    with Cons.prems(1) obtain new si' lt' fx' where
      c: "chunk_syls font tc si lt fx = Inr (new, si', lt', fx')"
      and l: "syls_loop font tcs si' lt' fx' (acc @ new) = Inr syls"
      by (auto split: sum.splits)
    from chunk_syls_unplaced [OF c] Cons.prems(2)
    have "\<forall>s\<in>set (acc @ new). unplaced_syl s" by auto
    from Cons.IH [OF l this] show ?thesis .
  qed
qed

lemma line_syls_unplaced:
  "line_syls font raw_text = Inr syls \<Longrightarrow> \<forall>s\<in>set syls. unplaced_syl s"
  unfolding line_syls_def by (erule syls_loop_unplaced) simp

lemma placed_word_unplaced:
  "placed_word e' e \<Longrightarrow> unplaced_word e \<Longrightarrow>
     w_width e' \<noteq> None \<and> w_height e' \<noteq> None \<and> w_pos e' \<noteq> None"
  by (auto simp: placed_word_def unplaced_word_def)

lemma placed_word_fields:
  assumes "list_all2 placed_word ws' ws" and "\<forall>w\<in>set ws. unplaced_word w"
  shows "\<forall>w\<in>set ws'. w_width w \<noteq> None \<and> w_height w \<noteq> None \<and> w_pos w \<noteq> None"
proof
  fix e'
  assume "e' \<in> set ws'"
  then obtain k where k: "k < length ws'" "ws' ! k = e'"
    by (auto simp: in_set_conv_nth)
  from assms(1) k(1) have p: "placed_word (ws' ! k) (ws ! k)" and "k < length ws"
    by (auto simp: list_all2_conv_all_nth)
  with assms(2) have "unplaced_word (ws ! k)" by simp
  with p show "w_width e' \<noteq> None \<and> w_height e' \<noteq> None \<and> w_pos e' \<noteq> None"
    unfolding k(2) by (rule placed_word_unplaced)
qed

lemma placed_syl_unplaced:
  "placed_syl e' e \<Longrightarrow> unplaced_syl e \<Longrightarrow>
     s_width e' \<noteq> None \<and> s_height e' \<noteq> None \<and> s_pos e' \<noteq> None"
  by (auto simp: placed_syl_def unplaced_syl_def)

lemma placed_syl_fields:
  assumes "list_all2 placed_syl ss' ss" and "\<forall>s\<in>set ss. unplaced_syl s"
  shows "\<forall>s\<in>set ss'. s_width s \<noteq> None \<and> s_height s \<noteq> None \<and> s_pos s \<noteq> None"
proof
  fix e'
  assume "e' \<in> set ss'"
  then obtain k where k: "k < length ss'" "ss' ! k = e'"
    by (auto simp: in_set_conv_nth)
  from assms(1) k(1) have p: "placed_syl (ss' ! k) (ss ! k)" and "k < length ss"
    by (auto simp: list_all2_conv_all_nth)
  with assms(2) have "unplaced_syl (ss ! k)" by simp
  with p show "s_width e' \<noteq> None \<and> s_height e' \<noteq> None \<and> s_pos e' \<noteq> None"
    unfolding k(2) by (rule placed_syl_unplaced)
qed

lemma placed_char_unplaced:
  "placed_char e' e \<Longrightarrow> unplaced_char e \<Longrightarrow>
     c_width e' \<noteq> None \<and> c_height e' \<noteq> None \<and> c_pos e' \<noteq> None"
  by (auto simp: placed_char_def unplaced_char_def)

lemma placed_char_fields:
  assumes "list_all2 placed_char cs' cs" and "\<forall>c\<in>set cs. unplaced_char c"
  shows "\<forall>c\<in>set cs'. c_width c \<noteq> None \<and> c_height c \<noteq> None \<and> c_pos c \<noteq> None"
proof
  fix e'
  assume "e' \<in> set cs'"
  then obtain k where k: "k < length cs'" "cs' ! k = e'"
    by (auto simp: in_set_conv_nth)
  from assms(1) k(1) have p: "placed_char (cs' ! k) (cs ! k)" and "k < length cs"
    by (auto simp: list_all2_conv_all_nth)
  with assms(2) have "unplaced_char (cs ! k)" by simp
  with p show "c_width e' \<noteq> None \<and> c_height e' \<noteq> None \<and> c_pos e' \<noteq> None"
    unfolding k(2) by (rule placed_char_unplaced)
qed

lemma line_words_fields:
  "\<forall>w\<in>set (line_words meta font style line lp).
     w_width w \<noteq> None \<and> w_height w \<noteq> None \<and> (w_pos w \<noteq> None \<longleftrightarrow> res_ok meta)"
proof (cases "res_ok meta")
  case True
  let ?ws = "make_words font line 0 (find_words (l_text line))"
  have "list_all2 placed_word (line_words meta font style line lp) ?ws"
    using True
    by (auto simp: line_words_def Let_def res_ok_def position_words_placed)
  from placed_word_fields [OF this make_words_unplaced] True show ?thesis by simp
next
  case False
  then have "line_words meta font style line lp = make_words font line 0 (find_words (l_text line))"
    by (auto simp: line_words_def Let_def res_ok_def)
  with make_words_unplaced [of font line 0 "find_words (l_text line)"] False show ?thesis
    by (simp add: unplaced_word_def)
qed

lemma place_syls_fields:
  assumes "place_syls vertical_kanji meta font style lp width height syls0
             = (lp', width', height', syls)"
    and "\<forall>s\<in>set syls0. unplaced_syl s"
  shows "\<forall>s\<in>set syls.
     s_width s \<noteq> None \<and> s_height s \<noteq> None \<and> (s_pos s \<noteq> None \<longleftrightarrow> res_ok meta)"
proof (cases "syls0 \<noteq> [] \<and> res_ok meta")
  case True
  with assms(1) have "list_all2 placed_syl syls syls0"
    by (auto simp: place_syls_def Let_def res_ok_def dest: position_syls_placed)
  from placed_syl_fields [OF this assms(2)] True show ?thesis by simp
next
  case False
  with assms(1) have "syls = syls0"
    by (auto simp: place_syls_def Let_def res_ok_def)
  with assms(2) False show ?thesis
    by (auto simp: unplaced_syl_def)
qed

lemma line_chars_fields:
  "\<forall>c\<in>set (line_chars meta font style lp words syls).
     c_width c \<noteq> None \<and> c_height c \<noteq> None \<and> (c_pos c \<noteq> None \<longleftrightarrow> res_ok meta)"
proof -
  let ?cs = "if syls \<noteq> [] then syl_chars font 0 syls else word_chars font 0 words"
  have u: "\<forall>c\<in>set ?cs. unplaced_char c"
    using syl_chars_unplaced word_chars_unplaced by simp
  show ?thesis
  proof (cases "res_ok meta")
    case True
    have "list_all2 placed_char (line_chars meta font style lp words syls) ?cs"
      using True
      by (auto simp: line_chars_def Let_def res_ok_def position_chars_placed)
    from placed_char_fields [OF this u] True show ?thesis by simp
  next
    case False
    then have "line_chars meta font style lp words syls = ?cs"
      by (auto simp: line_chars_def Let_def res_ok_def)
    with u False show ?thesis by (simp add: unplaced_char_def)
  qed
qed

lemma placed_erase:
  "placed_word w' w \<Longrightarrow> unplaced_word w \<Longrightarrow> w'\<lparr>w_pos := None\<rparr> = w"
  "placed_syl s' s \<Longrightarrow> unplaced_syl s \<Longrightarrow> s'\<lparr>s_pos := None\<rparr> = s"
  "placed_char c' c \<Longrightarrow> unplaced_char c \<Longrightarrow> c'\<lparr>c_pos := None\<rparr> = c"
  by (auto simp: placed_word_def unplaced_word_def placed_syl_def unplaced_syl_def
        placed_char_def unplaced_char_def)

lemma unplaced_erase:
  "unplaced_word w \<Longrightarrow> w\<lparr>w_pos := None\<rparr> = w"
  "unplaced_syl s \<Longrightarrow> s\<lparr>s_pos := None\<rparr> = s"
  "unplaced_char c \<Longrightarrow> c\<lparr>c_pos := None\<rparr> = c"
  by (auto simp: unplaced_word_def unplaced_syl_def unplaced_char_def)

lemma erase_placed_words:
  assumes "list_all2 placed_word ws' ws" and "\<forall>w\<in>set ws. unplaced_word w"
  shows "map (\<lambda>w. w\<lparr>w_pos := None\<rparr>) ws' = ws"
proof (rule nth_equalityI)
  show "length (map (\<lambda>w. w\<lparr>w_pos := None\<rparr>) ws') = length ws"
    using assms(1) by (simp add: list_all2_lengthD)
next
  fix k assume "k < length (map (\<lambda>w. w\<lparr>w_pos := None\<rparr>) ws')"
  then have k: "k < length ws'" by simp
  with assms(1) have "placed_word (ws' ! k) (ws ! k)" and "k < length ws"
    by (auto simp: list_all2_conv_all_nth)
  moreover from this(2) assms(2) have "unplaced_word (ws ! k)" by simp
  ultimately have "(ws' ! k)\<lparr>w_pos := None\<rparr> = ws ! k" by (intro placed_erase)
  with k show "map (\<lambda>w. w\<lparr>w_pos := None\<rparr>) ws' ! k = ws ! k" by simp
qed

lemma erase_placed_syls:
  assumes "list_all2 placed_syl ss' ss" and "\<forall>s\<in>set ss. unplaced_syl s"
  shows "map (\<lambda>s. s\<lparr>s_pos := None\<rparr>) ss' = ss"
proof (rule nth_equalityI)
  show "length (map (\<lambda>s. s\<lparr>s_pos := None\<rparr>) ss') = length ss"
    using assms(1) by (simp add: list_all2_lengthD)
next
  fix k assume "k < length (map (\<lambda>s. s\<lparr>s_pos := None\<rparr>) ss')"
  then have k: "k < length ss'" by simp
  with assms(1) have "placed_syl (ss' ! k) (ss ! k)" and "k < length ss"
    by (auto simp: list_all2_conv_all_nth)
  moreover from this(2) assms(2) have "unplaced_syl (ss ! k)" by simp
  ultimately have "(ss' ! k)\<lparr>s_pos := None\<rparr> = ss ! k" by (intro placed_erase)
  with k show "map (\<lambda>s. s\<lparr>s_pos := None\<rparr>) ss' ! k = ss ! k" by simp
qed

lemma erase_placed_chars:
  assumes "list_all2 placed_char cs' cs" and "\<forall>c\<in>set cs. unplaced_char c"
  shows "map (\<lambda>c. c\<lparr>c_pos := None\<rparr>) cs' = cs"
proof (rule nth_equalityI)
  show "length (map (\<lambda>c. c\<lparr>c_pos := None\<rparr>) cs') = length cs"
    using assms(1) by (simp add: list_all2_lengthD)
next
  fix k assume "k < length (map (\<lambda>c. c\<lparr>c_pos := None\<rparr>) cs')"
  then have k: "k < length cs'" by simp
  with assms(1) have "placed_char (cs' ! k) (cs ! k)" and "k < length cs"
    by (auto simp: list_all2_conv_all_nth)
  moreover from this(2) assms(2) have "unplaced_char (cs ! k)" by simp
  ultimately have "(cs' ! k)\<lparr>c_pos := None\<rparr> = cs ! k" by (intro placed_erase)
  with k show "map (\<lambda>c. c\<lparr>c_pos := None\<rparr>) cs' ! k = cs ! k" by simp
qed

lemma erase_unplaced:
  "\<forall>w\<in>set ws. unplaced_word w \<Longrightarrow> map (\<lambda>w. w\<lparr>w_pos := None\<rparr>) ws = ws"
  "\<forall>s\<in>set ss. unplaced_syl s \<Longrightarrow> map (\<lambda>s. s\<lparr>s_pos := None\<rparr>) ss = ss"
  "\<forall>c\<in>set cs. unplaced_char c \<Longrightarrow> map (\<lambda>c. c\<lparr>c_pos := None\<rparr>) cs = cs"
  by (simp_all add: map_idI unplaced_erase)

lemma line_words_erase:
  "map (\<lambda>w. w\<lparr>w_pos := None\<rparr>) (line_words meta font style line lp)
     = make_words font line 0 (find_words (l_text line))"
proof (cases "make_words font line 0 (find_words (l_text line)) \<noteq> [] \<and> res_ok meta")
  case True
  then have "list_all2 placed_word (line_words meta font style line lp)
               (make_words font line 0 (find_words (l_text line)))"
    by (auto simp: line_words_def Let_def res_ok_def position_words_placed)
  from erase_placed_words [OF this make_words_unplaced] show ?thesis .
next
  case False
  then have "line_words meta font style line lp
               = make_words font line 0 (find_words (l_text line))"
    by (auto simp: line_words_def Let_def res_ok_def)
  with erase_unplaced(1) [OF make_words_unplaced] show ?thesis by simp
qed

lemma place_syls_erase:
  assumes "place_syls vertical_kanji meta font style lp width height syls0
             = (lp', width', height', syls)"
    and "\<forall>s\<in>set syls0. unplaced_syl s"
  shows "map (\<lambda>s. s\<lparr>s_pos := None\<rparr>) syls = syls0"
proof (cases "syls0 \<noteq> [] \<and> res_ok meta")
  case True
  with assms(1) have "list_all2 placed_syl syls syls0"
    by (auto simp: place_syls_def Let_def res_ok_def dest: position_syls_placed)
  from erase_placed_syls [OF this assms(2)] show ?thesis .
next
  case False
  with assms(1) have "syls = syls0"
    by (auto simp: place_syls_def Let_def res_ok_def)
  with erase_unplaced(2) [OF assms(2)] show ?thesis by simp
qed

lemma line_chars_erase:
  "map (\<lambda>c. c\<lparr>c_pos := None\<rparr>) (line_chars meta font style lp words syls)
     = (if syls \<noteq> [] then syl_chars font 0 syls else word_chars font 0 words)"
proof -
  let ?cs = "if syls \<noteq> [] then syl_chars font 0 syls else word_chars font 0 words"
  have u: "\<forall>c\<in>set ?cs. unplaced_char c"
    using syl_chars_unplaced word_chars_unplaced by simp
  show ?thesis
  proof (cases "?cs \<noteq> [] \<and> res_ok meta")
    case True
    then have "list_all2 placed_char (line_chars meta font style lp words syls) ?cs"
      by (auto simp: line_chars_def Let_def res_ok_def position_chars_placed)
    from erase_placed_chars [OF this u] show ?thesis .
  next
    case False
    then have "line_chars meta font style lp words syls = ?cs"
      by (auto simp: line_chars_def Let_def res_ok_def)
    with erase_unplaced(3) [OF u] show ?thesis by simp
  qed
qed

lemma make_words_cong:
  "l_start_time line' = l_start_time line \<Longrightarrow> l_end_time line' = l_end_time line \<Longrightarrow>
   l_duration line' = l_duration line \<Longrightarrow>
     make_words font line' wi found = make_words font line wi found"
  by (induction found arbitrary: wi) auto

lemma process_line_geometry:
  assumes "styles (l_style line) = Some style" and "LF \<notin> set (l_raw_text line)"
  shows "\<exists>line' syls0. process_line vertical_kanji meta styles font_of line = Inr line'
    \<and> line_syls (font_of style) (l_raw_text line) = Inr syls0
    \<and> (\<forall>w\<in>set (l_words line').
          w_width w \<noteq> None \<and> w_height w \<noteq> None \<and> (w_pos w \<noteq> None \<longleftrightarrow> res_ok meta))
    \<and> (\<forall>s\<in>set (l_syls line').
          s_width s \<noteq> None \<and> s_height s \<noteq> None \<and> (s_pos s \<noteq> None \<longleftrightarrow> res_ok meta))
    \<and> (\<forall>c\<in>set (l_chars line').
          c_width c \<noteq> None \<and> c_height c \<noteq> None \<and> (c_pos c \<noteq> None \<longleftrightarrow> res_ok meta))
    \<and> map (\<lambda>w. w\<lparr>w_pos := None\<rparr>) (l_words line')
        = make_words (font_of style) (line\<lparr>l_duration := l_end_time line - l_start_time line\<rparr>)
            0 (find_words (strip_tags (l_raw_text line)))
    \<and> map (\<lambda>s. s\<lparr>s_pos := None\<rparr>) (l_syls line') = syls0
    \<and> map (\<lambda>c. c\<lparr>c_pos := None\<rparr>) (l_chars line')
        = (if l_syls line' \<noteq> [] then syl_chars (font_of style) 0 (l_syls line')
           else word_chars (font_of style) 0 (l_words line'))"
proof -
  let ?line = "line\<lparr>l_styleref := Some style,
                      l_duration := l_end_time line - l_start_time line,
                      l_text := strip_tags (l_raw_text line)\<rparr>"
  let ?font = "font_of style"
  let ?width = "fst (get_text_extents ?font (l_text ?line))"
  let ?height = "snd (get_text_extents ?font (l_text ?line))"
  let ?lp = "line_position meta style ?line ?width ?height"
  let ?words = "line_words meta ?font style ?line ?lp"
  from line_syls_result [OF assms(2), of ?font] obtain syls0 where
    s: "line_syls ?font (l_raw_text line) = Inr syls0" by blast
  obtain lp' width' height' syls where
    pl: "place_syls vertical_kanji meta ?font style ?lp ?width ?height syls0
           = (lp', width', height', syls)"
    by (metis prod_cases4)
  define line' where "line' = ?line\<lparr>l_width := width', l_height := height',
                            l_pos := (if play_res_x meta > 0 \<and> play_res_y meta > 0
                                      then Some lp' else l_pos ?line),
                            l_words := ?words, l_syls := syls,
                            l_chars := line_chars meta ?font style lp' ?words syls\<rparr>"
  have e: "extend_line vertical_kanji meta ?font style ?line = Inr line'"
    using s pl by (simp add: extend_line_def Let_def line'_def)
  have p: "process_line vertical_kanji meta styles font_of line = Inr line'"
    unfolding process_line_resolved [where styles = styles and line = line, OF assms(1)]
    by (rule e)
  have f: "l_words line' = ?words" "l_syls line' = syls"
    "l_chars line' = line_chars meta ?font style lp' ?words syls"
    by (simp_all add: line'_def)
  note u = line_syls_unplaced [OF s]
  have "make_words ?font ?line 0 (find_words (l_text ?line))
          = make_words ?font (line\<lparr>l_duration := l_end_time line - l_start_time line\<rparr>)
              0 (find_words (strip_tags (l_raw_text line)))"
    by (simp add: make_words_cong)
  with line_words_erase [of meta ?font style ?line ?lp]
  have w: "map (\<lambda>w. w\<lparr>w_pos := None\<rparr>) (l_words line')
        = make_words ?font (line\<lparr>l_duration := l_end_time line - l_start_time line\<rparr>)
            0 (find_words (strip_tags (l_raw_text line)))"
    unfolding f by simp
  have fw: "\<forall>w\<in>set (l_words line').
          w_width w \<noteq> None \<and> w_height w \<noteq> None \<and> (w_pos w \<noteq> None \<longleftrightarrow> res_ok meta)"
    unfolding f by (rule line_words_fields)
  have fs: "\<forall>s\<in>set (l_syls line').
          s_width s \<noteq> None \<and> s_height s \<noteq> None \<and> (s_pos s \<noteq> None \<longleftrightarrow> res_ok meta)"
    unfolding f by (rule place_syls_fields [OF pl u])
  have fc: "\<forall>c\<in>set (l_chars line').
          c_width c \<noteq> None \<and> c_height c \<noteq> None \<and> (c_pos c \<noteq> None \<longleftrightarrow> res_ok meta)"
    unfolding f by (rule line_chars_fields)
  have es: "map (\<lambda>s. s\<lparr>s_pos := None\<rparr>) (l_syls line') = syls0"
    unfolding f by (rule place_syls_erase [OF pl u])
  have ec: "map (\<lambda>c. c\<lparr>c_pos := None\<rparr>) (l_chars line')
        = (if l_syls line' \<noteq> [] then syl_chars (font_of style) 0 (l_syls line')
           else word_chars (font_of style) 0 (l_words line'))"
    unfolding f by (rule line_chars_erase)
  from p s fw fs fc w es ec show ?thesis
    by (intro exI [of _ line'] exI [of _ syls0] conjI)
qed

text \<open>
  C8, as stated: with a play resolution that is not positive in both dimensions, every
  geometry field of every word, syllable and char stays unset, width and height
  included. This fails for the words of \<open>Hi there\<close> at a resolution of 0 by 720: their
  width and height are set.
\<close>

theorem C8_counterexample:
  "\<not> (\<exists>line'. process_line True zero_width_meta (example_styles 2) (\<lambda>_. example_font)
                  (example_line ''Hi there'') = Inr line'
        \<and> (\<forall>w\<in>set (l_words line'). w_width w = None \<and> w_height w = None \<and> w_pos w = None))"
proof
  assume "\<exists>line'. process_line True zero_width_meta (example_styles 2) (\<lambda>_. example_font)
                  (example_line ''Hi there'') = Inr line'
        \<and> (\<forall>w\<in>set (l_words line'). w_width w = None \<and> w_height w = None \<and> w_pos w = None)"
  then obtain line' where
    p: "process_line True zero_width_meta (example_styles 2) (\<lambda>_. example_font)
          (example_line ''Hi there'') = Inr line'"
    and n: "\<forall>w\<in>set (l_words line'). w_width w = None \<and> w_height w = None \<and> w_pos w = None"
    by (elim exE conjE)
  have a: "l_raw_text (example_line ''Hi there'') = ''Hi there''"
    and b: "example_styles 2 (l_style (example_line ''Hi there'')) = Some (example_style 2)"
    by (rule example_line_fields)+
  have "\<exists>line'. process_line True zero_width_meta (example_styles 2) (\<lambda>_. example_font)
                  (example_line ''Hi there'') = Inr line'
        \<and> l_syls line' = []
        \<and> map (\<lambda>w. (w_text w, w_prespace w, w_postspace w)) (l_words line')
            = [(''Hi'', 0, 1), (''there'', 0, 0)]"
    by (rule process_line_hi_there
          [where line = "example_line ''Hi there''" and styles = "example_styles 2"
             and style = "example_style 2", OF a b])
  with p have "map (\<lambda>w. (w_text w, w_prespace w, w_postspace w)) (l_words line')
            = [(''Hi'', 0, 1), (''there'', 0, 0)]"
    by (elim exE conjE) simp
  then have "l_words line' \<noteq> []" by auto
  then obtain w where w: "w \<in> set (l_words line')" by (cases "l_words line'") auto
  have lf: "LF \<notin> set (l_raw_text (example_line ''Hi there''))"
    unfolding a by code_simp
  from process_line_geometry [where styles = "example_styles 2"
      and line = "example_line ''Hi there''" and style = "example_style 2", OF b lf,
      of True zero_width_meta "\<lambda>_. example_font"] p
  have "\<forall>w\<in>set (l_words line'). w_width w \<noteq> None"
    by (elim exE conjE) simp
  with w n show False by blast
qed

text \<open>
  C8, amended: for every word, syllable and char of a line with a resolved style, the
  position fields (\<open>x\<close>, \<open>y\<close>, \<open>left\<close>, \<open>center\<close>, \<open>right\<close>, \<open>top\<close>, \<open>middle\<close>, \<open>bottom\<close>)
  are set if and only if both play-resolution dimensions are positive, while width and
  height are set in either case. Apart from the position, the elements do not depend on
  the resolution: the words are those of the word pattern, the syllables those of the
  extractor, the chars those of the line's syllables or, without syllables, words.
\<close>

theorem C8_geometry_population:
  assumes "styles (l_style line) = Some style" and "LF \<notin> set (l_raw_text line)"
  shows "\<exists>line' syls0. process_line vertical_kanji meta styles font_of line = Inr line'
    \<and> line_syls (font_of style) (l_raw_text line) = Inr syls0
    \<and> (\<forall>w\<in>set (l_words line').
          w_width w \<noteq> None \<and> w_height w \<noteq> None
          \<and> (w_pos w \<noteq> None \<longleftrightarrow> play_res_x meta > 0 \<and> play_res_y meta > 0))
    \<and> (\<forall>s\<in>set (l_syls line').
          s_width s \<noteq> None \<and> s_height s \<noteq> None
          \<and> (s_pos s \<noteq> None \<longleftrightarrow> play_res_x meta > 0 \<and> play_res_y meta > 0))
    \<and> (\<forall>c\<in>set (l_chars line').
          c_width c \<noteq> None \<and> c_height c \<noteq> None
          \<and> (c_pos c \<noteq> None \<longleftrightarrow> play_res_x meta > 0 \<and> play_res_y meta > 0))
    \<and> map (\<lambda>w. w\<lparr>w_pos := None\<rparr>) (l_words line')
        = make_words (font_of style) (line\<lparr>l_duration := l_end_time line - l_start_time line\<rparr>)
            0 (find_words (strip_tags (l_raw_text line)))
    \<and> map (\<lambda>s. s\<lparr>s_pos := None\<rparr>) (l_syls line') = syls0
    \<and> map (\<lambda>c. c\<lparr>c_pos := None\<rparr>) (l_chars line')
        = (if l_syls line' \<noteq> [] then syl_chars (font_of style) 0 (l_syls line')
           else word_chars (font_of style) 0 (l_words line'))"
  using process_line_geometry [where styles = styles and line = line and style = style,
      OF assms, of vertical_kanji meta font_of]
  unfolding res_ok_def .

theorem C8_geometry_population_witness:
  "example_styles 2 (l_style (example_line ''Hi there'')) = Some (example_style 2)
   \<and> LF \<notin> set (l_raw_text (example_line ''Hi there''))
   \<and> (\<exists>line'. process_line True zero_width_meta (example_styles 2) (\<lambda>_. example_font)
                  (example_line ''Hi there'') = Inr line'
        \<and> list_all (\<lambda>w. w_width w \<noteq> None \<and> w_height w \<noteq> None \<and> w_pos w = None)
             (l_words line')
        \<and> list_all (\<lambda>c. c_width c \<noteq> None \<and> c_height c \<noteq> None \<and> c_pos c = None)
             (l_chars line'))"
proof -
  have a: "l_raw_text (example_line ''Hi there'') = ''Hi there''"
    and b: "example_styles 2 (l_style (example_line ''Hi there'')) = Some (example_style 2)"
    by (rule example_line_fields)+
  have lf: "LF \<notin> set (l_raw_text (example_line ''Hi there''))"
    unfolding a by code_simp
  have "\<exists>line'. process_line True zero_width_meta (example_styles 2) (\<lambda>_. example_font)
                  (example_line ''Hi there'') = Inr line'
        \<and> list_all (\<lambda>w. w_width w \<noteq> None \<and> w_height w \<noteq> None \<and> w_pos w = None)
             (l_words line')
        \<and> list_all (\<lambda>c. c_width c \<noteq> None \<and> c_height c \<noteq> None \<and> c_pos c = None)
             (l_chars line')"
    using C8_geometry_population [where styles = "example_styles 2"
      and line = "example_line ''Hi there''" and style = "example_style 2", OF b lf,
      of True zero_width_meta "\<lambda>_. example_font"]
  proof (elim exE conjE)
    fix line' syls0
    assume p: "process_line True zero_width_meta (example_styles 2) (\<lambda>_. example_font)
                  (example_line ''Hi there'') = Inr line'"
      and w: "\<forall>w\<in>set (l_words line').
          w_width w \<noteq> None \<and> w_height w \<noteq> None
          \<and> (w_pos w \<noteq> None \<longleftrightarrow> play_res_x zero_width_meta > 0 \<and> play_res_y zero_width_meta > 0)"
      and c: "\<forall>c\<in>set (l_chars line').
          c_width c \<noteq> None \<and> c_height c \<noteq> None
          \<and> (c_pos c \<noteq> None \<longleftrightarrow> play_res_x zero_width_meta > 0 \<and> play_res_y zero_width_meta > 0)"
    from w have "list_all (\<lambda>w. w_width w \<noteq> None \<and> w_height w \<noteq> None \<and> w_pos w = None)
             (l_words line')"
      by (simp add: list_all_iff zero_width_meta_def)
    moreover from c
    have "list_all (\<lambda>c. c_width c \<noteq> None \<and> c_height c \<noteq> None \<and> c_pos c = None)
             (l_chars line')"
      by (simp add: list_all_iff zero_width_meta_def)
    ultimately show ?thesis using p by (intro exI [of _ line'] conjI)
  qed
  with b lf show ?thesis by (intro conjI)
qed

end
